theory Spec2Isabelle
  imports Complex_Main
begin

section \<open>Python containers\<close>

text \<open>
  A Python \<^verbatim>\<open>dict\<close> keeps its keys in insertion order and a store to an existing key
  keeps the key's position. It is modelled as an association list with that update;
  a lookup is \<^const>\<open>map_of\<close>.
\<close>

fun dict_set :: "('k \<times> 'v) list \<Rightarrow> 'k \<Rightarrow> 'v \<Rightarrow> ('k \<times> 'v) list" where
  "dict_set [] k v = [(k, v)]"
| "dict_set ((k', v') # d) k v =
     (if k' = k then (k, v) # d else (k', v') # dict_set d k v)"

text \<open>
  The exceptions of the modelled code, one constructor for each: the \<^verbatim>\<open>ValueError\<close>s by
  their message (the two of the start/frequency check, the cycle, the nodes missing from the
  initial values, the expected and found number of initial values, numpy's negative scale,
  pandas' columns of unequal length), the lookup and type errors of Python, and the errors of
  networkx and pandas.
\<close>

datatype error =
    ValueError_start_time_without_frequency
  | ValueError_frequency_without_start_time
  | ValueError_cycle_detected
  | ValueError_nodes_not_provided "string list"
  | ValueError_expected_values int string nat
  | ValueError_scale_negative
  | ValueError_unequal_column_lengths
  | KeyError string
  | IndexError
  | TypeError
  | AttributeError
  | ZeroDivisionError
  | RuntimeError_graph_changed
  | NetworkXUnfeasible
  | PandasError string
  | InvalidIndexError

text \<open>
  Python list indexing: an index from \<open>-len\<close> up to \<open>len - 1\<close> names a position
  (a negative one counts from the end); any other index raises \<^verbatim>\<open>IndexError\<close>.
  A slice never raises.
\<close>

definition py_position :: "nat \<Rightarrow> int \<Rightarrow> nat option" where
  "py_position len i =
     (if 0 \<le> i then (if i < int len then Some (nat i) else None)
      else (if - int len \<le> i then Some (nat (int len + i)) else None))"

definition py_index :: "'a list \<Rightarrow> int \<Rightarrow> error + 'a" where
  "py_index xs i = (case py_position (length xs) i of None \<Rightarrow> Inl IndexError | Some j \<Rightarrow> Inr (xs ! j))"

definition py_store :: "'a list \<Rightarrow> int \<Rightarrow> 'a \<Rightarrow> error + 'a list" where
  "py_store xs i v =
     (case py_position (length xs) i of None \<Rightarrow> Inl IndexError | Some j \<Rightarrow> Inr (xs[j := v]))"

definition py_take :: "int \<Rightarrow> 'a list \<Rightarrow> 'a list" where
  "py_take k xs = (if 0 \<le> k then take (nat k) xs else take (nat (int (length xs) + k)) xs)"

definition py_drop :: "int \<Rightarrow> 'a list \<Rightarrow> 'a list" where
  "py_drop k xs = (if 0 \<le> k then drop (nat k) xs else drop (nat (int (length xs) + k)) xs)"

section \<open>Evaluators\<close>

subsection \<open>Time features (evaluator/time\_features.py)\<close>

text \<open>A calendar timestamp, as far as the time features read it.\<close>

datatype timestamp = Timestamp (isoweekday: int) (day: int) (month: int)

text \<open>An entry of the time axis: a plain integer timestep or a calendar timestamp.\<close>

datatype time_value = TInt int | TStamp timestamp

datatype time_feature = DayOfWeek | DayOfMonth | MonthOfYear | PointOfPeriodicCycle int

text \<open>
  The calendar features call a method or attribute of the timestamp, which an integer does
  not have; the periodic feature takes the remainder, which a timestamp does not support
  and which fails on a zero cycle length. Python's \<^verbatim>\<open>%\<close> on integers takes the sign
  of the divisor, as \<open>mod\<close> on \<^typ>\<open>int\<close> does.
\<close>

fun time_feature_evaluate :: "time_feature \<Rightarrow> time_value \<Rightarrow> error + int" where
  "time_feature_evaluate DayOfWeek (TStamp s) = Inr (isoweekday s)"
| "time_feature_evaluate DayOfWeek (TInt i) = Inl AttributeError"
| "time_feature_evaluate DayOfMonth (TStamp s) = Inr (day s)"
| "time_feature_evaluate DayOfMonth (TInt i) = Inl AttributeError"
| "time_feature_evaluate MonthOfYear (TStamp s) = Inr (month s)"
| "time_feature_evaluate MonthOfYear (TInt i) = Inl AttributeError"
| "time_feature_evaluate (PointOfPeriodicCycle n) (TInt i) =
     (if n = 0 then Inl ZeroDivisionError else Inr ((i mod n) + 1))"
| "time_feature_evaluate (PointOfPeriodicCycle n) (TStamp s) = Inl TypeError"

subsection \<open>Linear Gaussian CPD (evaluator/cpds/linear\_gaussian.py)\<close>

record LinearGaussianCPD =
  parent_weights :: "((string \<times> int) \<times> real) list"
  noise_std :: real
  intrinsic_mean :: real

text \<open>The constructor stores its three arguments; it has no failing branch.\<close>

definition LinearGaussianCPD_init ::
    "((string \<times> int) \<times> real) list \<Rightarrow> real \<Rightarrow> real \<Rightarrow> error + LinearGaussianCPD" where
  "LinearGaussianCPD_init pw im ns =
     Inr \<lparr>parent_weights = pw, noise_std = ns, intrinsic_mean = im\<rparr>"

text \<open>
  \<^verbatim>\<open>numpy.random.Generator.normal(loc, scale)\<close>: rejects a negative scale and otherwise
  returns \<open>loc + scale * z\<close> for a standard normal draw \<open>z\<close>. The draw is an argument of
  the model. Floating-point numbers are modelled as reals here, with exact arithmetic; the
  evaluator on floats, with their values that are not finite and with rounding, follows below.
\<close>

definition normal :: "real \<Rightarrow> real \<Rightarrow> real \<Rightarrow> error + real" where
  "normal z loc scale = (if scale < 0 then Inl ValueError_scale_negative else Inr (loc + scale * z))"

text \<open>\<^verbatim>\<open>d.get(key, 0.0)\<close>\<close>

definition get_weight :: "((string \<times> int) \<times> real) list \<Rightarrow> string \<times> int \<Rightarrow> real" where
  "get_weight w key = (case map_of w key of None \<Rightarrow> 0 | Some x \<Rightarrow> x)"

definition linear_sum :: "LinearGaussianCPD \<Rightarrow> ((string \<times> int) \<times> real) list \<Rightarrow> real" where
  "linear_sum c parent_values =
     sum_list ([intrinsic_mean c] @ map (\<lambda>(key, val). get_weight (parent_weights c) key * val) parent_values)"

definition evaluate :: "LinearGaussianCPD \<Rightarrow> real \<Rightarrow> ((string \<times> int) \<times> real) list \<Rightarrow> error + real" where
  "evaluate c z parent_values = normal z (linear_sum c parent_values) (noise_std c)"

subsection \<open>The linear Gaussian CPD on floating-point numbers\<close>

text \<open>
  The reals above idealise Python's floats. Here is the same evaluator on floats with their
  values that are not finite: a float is a finite number, one of the two infinities, or nan.
  The two zeros are one value. An operation on finite floats gives the exact outcome rounded;
  the rounding, to the nearest float or to an infinity beyond the largest float, is the
  parameter \<open>rnd\<close> of every operation.
\<close>

datatype pyfloat = Fin real | PInf | NInf | NaN

fun float_add :: "(real \<Rightarrow> pyfloat) \<Rightarrow> pyfloat \<Rightarrow> pyfloat \<Rightarrow> pyfloat" where
  "float_add rnd NaN b = NaN"
| "float_add rnd a NaN = NaN"
| "float_add rnd (Fin x) (Fin y) = rnd (x + y)"
| "float_add rnd (Fin x) b = b"
| "float_add rnd a (Fin y) = a"
| "float_add rnd PInf NInf = NaN"
| "float_add rnd NInf PInf = NaN"
| "float_add rnd PInf PInf = PInf"
| "float_add rnd NInf NInf = NInf"

text \<open>Zero times an infinity is nan; otherwise an infinity keeps or flips its sign.\<close>

fun float_mul :: "(real \<Rightarrow> pyfloat) \<Rightarrow> pyfloat \<Rightarrow> pyfloat \<Rightarrow> pyfloat" where
  "float_mul rnd NaN b = NaN"
| "float_mul rnd a NaN = NaN"
| "float_mul rnd (Fin x) (Fin y) = rnd (x * y)"
| "float_mul rnd (Fin x) PInf = (if x = 0 then NaN else if 0 < x then PInf else NInf)"
| "float_mul rnd (Fin x) NInf = (if x = 0 then NaN else if 0 < x then NInf else PInf)"
| "float_mul rnd PInf (Fin y) = (if y = 0 then NaN else if 0 < y then PInf else NInf)"
| "float_mul rnd NInf (Fin y) = (if y = 0 then NaN else if 0 < y then NInf else PInf)"
| "float_mul rnd PInf PInf = PInf"
| "float_mul rnd PInf NInf = NInf"
| "float_mul rnd NInf PInf = NInf"
| "float_mul rnd NInf NInf = PInf"

fun is_finite :: "pyfloat \<Rightarrow> bool" where
  "is_finite (Fin x) = True"
| "is_finite a = False"

fun float_negative :: "pyfloat \<Rightarrow> bool" where
  "float_negative (Fin x) = (x < 0)"
| "float_negative NInf = True"
| "float_negative a = False"

text \<open>
  \<^verbatim>\<open>sum(xs)\<close> starts from the integer 0 and adds the entries from left to right; an
  integer added to a float is converted to the float first.
\<close>

definition py_sum :: "(real \<Rightarrow> pyfloat) \<Rightarrow> pyfloat list \<Rightarrow> pyfloat" where
  "py_sum rnd xs = fold (\<lambda>x acc. float_add rnd acc x) xs (Fin 0)"

record LinearGaussianCPD_float =
  parent_weights_float :: "((string \<times> int) \<times> pyfloat) list"
  noise_std_float :: pyfloat
  intrinsic_mean_float :: pyfloat

definition normal_float :: "(real \<Rightarrow> pyfloat) \<Rightarrow> real \<Rightarrow> pyfloat \<Rightarrow> pyfloat \<Rightarrow> error + pyfloat" where
  "normal_float rnd z loc scale =
     (if float_negative scale then Inl ValueError_scale_negative
      else Inr (float_add rnd loc (float_mul rnd scale (Fin z))))"

definition get_weight_float :: "((string \<times> int) \<times> pyfloat) list \<Rightarrow> string \<times> int \<Rightarrow> pyfloat" where
  "get_weight_float w key = (case map_of w key of None \<Rightarrow> Fin 0 | Some x \<Rightarrow> x)"

definition linear_sum_float ::
    "(real \<Rightarrow> pyfloat) \<Rightarrow> LinearGaussianCPD_float \<Rightarrow> ((string \<times> int) \<times> pyfloat) list \<Rightarrow> pyfloat" where
  "linear_sum_float rnd c parent_values =
     py_sum rnd ([intrinsic_mean_float c]
       @ map (\<lambda>(key, val). float_mul rnd (get_weight_float (parent_weights_float c) key) val) parent_values)"

definition evaluate_float ::
    "(real \<Rightarrow> pyfloat) \<Rightarrow> LinearGaussianCPD_float \<Rightarrow> real \<Rightarrow> ((string \<times> int) \<times> pyfloat) list
      \<Rightarrow> error + pyfloat" where
  "evaluate_float rnd c z parent_values =
     normal_float rnd z (linear_sum_float rnd c parent_values) (noise_std_float c)"

text \<open>
  What the results below need of the rounding: zero is a float, and a rounded outcome is a
  float, which rounding leaves as it is.
\<close>

definition rounding :: "(real \<Rightarrow> pyfloat) \<Rightarrow> bool" where
  "rounding rnd \<longleftrightarrow> rnd 0 = Fin 0 \<and> (\<forall>x y. rnd x = Fin y \<longrightarrow> rnd y = Fin y)"

text \<open>A small format for the examples: its floats are the integers.\<close>

definition integer_rounding :: "real \<Rightarrow> pyfloat" where
  "integer_rounding x = Fin (of_int (round x))"

text \<open>The idealised evaluator, seen as one on floats.\<close>

definition float_of_cpd :: "LinearGaussianCPD \<Rightarrow> LinearGaussianCPD_float" where
  "float_of_cpd c =
     \<lparr>parent_weights_float = map (\<lambda>(k, w). (k, Fin w)) (parent_weights c),
      noise_std_float = Fin (noise_std c),
      intrinsic_mean_float = Fin (intrinsic_mean c)\<rparr>"

text \<open>A float is rounded when it is not a finite number that the rounding would change.\<close>

definition rounded :: "(real \<Rightarrow> pyfloat) \<Rightarrow> pyfloat \<Rightarrow> bool" where
  "rounded rnd a \<longleftrightarrow> (\<forall>s. a = Fin s \<longrightarrow> rnd s = Fin s)"

section \<open>Nodes (node.py)\<close>

text \<open>
  A regular node has a name, its list of (parent name, lag) pairs and a CPD, unset at
  first. A temporal node has a name, an always empty parent list and a time feature, unset
  at first. A node is the value it has when \<^verbatim>\<open>add_node\<close> receives it.
\<close>

datatype node =
    Node (name: string) (parents: "(string \<times> int) list") (cpd: "LinearGaussianCPD option")
  | TemporalNode (name: string) (time_feature: "time_feature option")
where
  "parents (TemporalNode n tf) = []"
| "cpd (TemporalNode n tf) = None"
| "time_feature (Node n ps c) = None"

definition is_TemporalNode :: "node \<Rightarrow> bool" where
  "is_TemporalNode n = (case n of TemporalNode _ _ \<Rightarrow> True | Node _ _ _ \<Rightarrow> False)"

definition Node_init :: "string \<Rightarrow> node" where
  "Node_init nm = Node nm [] None"

definition add_parent :: "node \<Rightarrow> string \<Rightarrow> int \<Rightarrow> node" where
  "add_parent n parent_name lag =
     (case n of Node nm ps c \<Rightarrow> Node nm (ps @ [(parent_name, lag)]) c | TemporalNode nm tf \<Rightarrow> TemporalNode nm tf)"

section \<open>The network (dbn.py)\<close>

record DBN =
  nodes :: "(string \<times> node) list"
  max_lag :: int

definition DBN_init :: DBN where
  "DBN_init = \<lparr>nodes = [], max_lag = 0\<rparr>"

text \<open>\<^verbatim>\<open>for _, lag in node.parents: if lag > self.max_lag: self.max_lag = lag\<close>\<close>

definition raise_max_lag :: "(string \<times> int) list \<Rightarrow> int \<Rightarrow> int" where
  "raise_max_lag ps m = fold (\<lambda>(_, lag) m. if lag > m then lag else m) ps m"

definition add_node :: "DBN \<Rightarrow> node \<Rightarrow> DBN" where
  "add_node dbn n =
     \<lparr>nodes = dict_set (nodes dbn) (name n) n,
      max_lag = raise_max_lag (parents n) (max_lag dbn)\<rparr>"

text \<open>A network after a sequence of \<^verbatim>\<open>add_node\<close> calls on a fresh one.\<close>

definition build :: "node list \<Rightarrow> DBN" where
  "build ns = foldl add_node DBN_init ns"

definition get_node :: "DBN \<Rightarrow> string \<Rightarrow> node option" where
  "get_node dbn nm = map_of (nodes dbn) nm"

text \<open>The body of \<^verbatim>\<open>validate_structure\<close> is \<^verbatim>\<open>pass\<close>: it returns without a check.\<close>

definition validate_structure :: "DBN \<Rightarrow> error + unit" where
  "validate_structure dbn = Inr ()"

section \<open>The directed graph and its topological sort (networkx, as dbn.py uses it)\<close>

text \<open>\<^verbatim>\<open>del d[k]\<close>\<close>

definition dict_del :: "('k \<times> 'v) list \<Rightarrow> 'k \<Rightarrow> ('k \<times> 'v) list" where
  "dict_del d k = filter (\<lambda>kv. fst kv \<noteq> k) d"

text \<open>
  A \<^verbatim>\<open>DiGraph\<close>: the vertices in the order they were added and the edges in the order
  they were added, each once. The successors of a vertex are iterated in the order its edges
  were added, its in-degree is the number of its incoming edges, \<^verbatim>\<open>add_node\<close> and
  \<^verbatim>\<open>add_edge\<close> leave what is already there in place, and \<^verbatim>\<open>add_edge\<close> adds the
  end points that are not yet vertices.
\<close>

record 'a digraph =
  g_nodes :: "'a list"
  g_edges :: "('a \<times> 'a) list"

definition DiGraph_init :: "'a digraph" where
  "DiGraph_init = \<lparr>g_nodes = [], g_edges = []\<rparr>"

definition G_add_node :: "'a digraph \<Rightarrow> 'a \<Rightarrow> 'a digraph" where
  "G_add_node G v = (if v \<in> set (g_nodes G) then G else G\<lparr>g_nodes := g_nodes G @ [v]\<rparr>)"

definition G_add_edge :: "'a digraph \<Rightarrow> 'a \<Rightarrow> 'a \<Rightarrow> 'a digraph" where
  "G_add_edge G u v =
     (let G2 = G_add_node (G_add_node G u) v
      in if (u, v) \<in> set (g_edges G2) then G2 else G2\<lparr>g_edges := g_edges G2 @ [(u, v)]\<rparr>)"

definition neighbors :: "'a digraph \<Rightarrow> 'a \<Rightarrow> 'a list" where
  "neighbors G v = map snd (filter (\<lambda>e. fst e = v) (g_edges G))"

definition in_degree :: "'a digraph \<Rightarrow> 'a \<Rightarrow> int" where
  "in_degree G v = int (length (filter (\<lambda>e. snd e = v) (g_edges G)))"

text \<open>
  \<^verbatim>\<open>topological_sort\<close> yields the generations of \<^verbatim>\<open>topological_generations\<close> one
  after the other. A generation is the list of vertices whose in-degree has dropped to zero;
  working through it lowers the in-degree of every successor by one in the map
  \<open>indegree_map\<close> (which holds the vertices of positive in-degree) and moves a successor
  that reaches zero from the map to the next generation. When no generation is left and the
  map is not empty, the graph has a cycle (\<^verbatim>\<open>NetworkXUnfeasible\<close>). \<open>relax\<close> is the loop
  over the successors of one vertex, \<open>process_generation\<close> the loop over a generation.
\<close>

fun relax :: "('a \<times> int) list \<Rightarrow> 'a list \<Rightarrow> 'a list \<Rightarrow> error + (('a \<times> int) list \<times> 'a list)" where
  "relax m zs [] = Inr (m, zs)"
| "relax m zs (child # cs) =
     (case map_of m child of
        None \<Rightarrow> Inl RuntimeError_graph_changed
      | Some d \<Rightarrow>
          (let m' = dict_set m child (d - 1)
           in if d - 1 = 0 then relax (dict_del m' child) (zs @ [child]) cs
              else relax m' zs cs))"

fun process_generation ::
    "'a digraph \<Rightarrow> ('a \<times> int) list \<Rightarrow> 'a list \<Rightarrow> 'a list \<Rightarrow> error + (('a \<times> int) list \<times> 'a list)" where
  "process_generation G m zs [] = Inr (m, zs)"
| "process_generation G m zs (v # vs) =
     (if v \<notin> set (g_nodes G) then Inl RuntimeError_graph_changed
      else case relax m zs (neighbors G v) of
        Inl e \<Rightarrow> Inl e
      | Inr (m', zs') \<Rightarrow> process_generation G m' zs' vs)"

text \<open>The loop over the generations ends: a vertex enters the next generation only by
  leaving the map.\<close>

lemma length_dict_set_present: "map_of m k = Some d \<Longrightarrow> length (dict_set m k v) = length m"
  by (induction m k v rule: dict_set.induct) (auto split: if_splits)

lemma map_of_dict_set: "map_of (dict_set m k v) = (map_of m)(k \<mapsto> v)"
  by (induction m k v rule: dict_set.induct) (auto simp: fun_eq_iff)

lemma length_dict_del_present: "map_of m k = Some d \<Longrightarrow> length (dict_del m k) < length m"
proof (induction m)
  case Nil then show ?case by simp
next
  case (Cons a m)
  have le: "length (dict_del m k) \<le> length m" by (simp add: dict_del_def)
  show ?case
  proof (cases "fst a = k")
    case True
    then show ?thesis using le by (simp add: dict_del_def le_imp_less_Suc)
  next
    case False
    then have "map_of m k = Some d" using Cons.prems by (cases a) (auto split: if_splits)
    then show ?thesis using Cons.IH False by (simp add: dict_del_def)
  qed
qed

lemma relax_length:
  "relax m zs cs = Inr (m', zs') \<Longrightarrow> length m' + length zs' \<le> length m + length zs"
proof (induction cs arbitrary: m zs)
  case Nil then show ?case by simp
next
  case (Cons c cs)
  from Cons.prems obtain d where d: "map_of m c = Some d"
    by (cases "map_of m c") auto
  have l1: "length (dict_set m c (d - 1)) = length m" using d by (rule length_dict_set_present)
  show ?case
  proof (cases "d - 1 = 0")
    case True
    have "map_of (dict_set m c (d - 1)) c = Some (d - 1)" by (simp add: map_of_dict_set)
    then have "length (dict_del (dict_set m c (d - 1)) c) < length m"
      using length_dict_del_present l1 by metis
    moreover have "relax (dict_del (dict_set m c (d - 1)) c) (zs @ [c]) cs = Inr (m', zs')"
      using Cons.prems d True by simp
    from Cons.IH[OF this] have "length m' + length zs' \<le> length (dict_del (dict_set m c (d - 1)) c) + length (zs @ [c])" .
    ultimately show ?thesis by simp
  next
    case False
    then have "relax (dict_set m c (d - 1)) zs cs = Inr (m', zs')"
      using Cons.prems d by simp
    from Cons.IH[OF this] show ?thesis using l1 by simp
  qed
qed

lemma process_generation_length:
  "process_generation G m zs vs = Inr (m', zs') \<Longrightarrow> length m' + length zs' \<le> length m + length zs"
proof (induction vs arbitrary: m zs)
  case Nil then show ?case by simp
next
  case (Cons v vs)
  from Cons.prems obtain m1 zs1 where r: "relax m zs (neighbors G v) = Inr (m1, zs1)"
    and p: "process_generation G m1 zs1 vs = Inr (m', zs')"
    by (auto split: if_splits sum.splits)
  from relax_length[OF r] Cons.IH[OF p] show ?case by simp
qed

function topological_generations_loop ::
    "'a digraph \<Rightarrow> ('a \<times> int) list \<Rightarrow> 'a list \<Rightarrow> error + 'a list list" where
  "topological_generations_loop G m zero_indegree =
     (if zero_indegree = [] then (if m \<noteq> [] then Inl NetworkXUnfeasible else Inr [])
      else case process_generation G m [] zero_indegree of
        Inl e \<Rightarrow> Inl e
      | Inr (m', zero') \<Rightarrow>
          (case topological_generations_loop G m' zero' of
             Inl e \<Rightarrow> Inl e
           | Inr gens \<Rightarrow> Inr (zero_indegree # gens)))"
  by pat_completeness auto
termination
proof (relation "measure (\<lambda>(G, m, z). 2 * length m + (if z = [] then 0 else 1))", goal_cases)
  case 1 show ?case by simp
next
  case (2 G m z x2 m' z')
  then have "process_generation G m [] z = Inr (m', z')" by simp
  from process_generation_length[OF this] have "length m' + length z' \<le> length m" by simp
  then show ?case using 2 by (cases z') auto
qed

definition topological_sort :: "'a digraph \<Rightarrow> error + 'a list" where
  "topological_sort G =
     (let indegree_map = map (\<lambda>v. (v, in_degree G v)) (filter (\<lambda>v. in_degree G v > 0) (g_nodes G));
          zero_indegree = filter (\<lambda>v. in_degree G v = 0) (g_nodes G)
      in case topological_generations_loop G indegree_map zero_indegree of
           Inl e \<Rightarrow> Inl e
         | Inr gens \<Rightarrow> Inr (concat gens))"

text \<open>
  \<^verbatim>\<open>get_topological_order\<close>: the graph has every node name as a vertex and an edge from
  the parent to the node for every parent pair of lag 0; the names come back sorted, the
  cycle exception becomes the \<^verbatim>\<open>ValueError\<close>, and every name is looked up in
  \<^verbatim>\<open>self.nodes\<close>.
\<close>

definition build_graph :: "DBN \<Rightarrow> string digraph" where
  "build_graph dbn =
     (let G0 = fold (\<lambda>node_name G. G_add_node G node_name) (map fst (nodes dbn)) DiGraph_init
      in fold (\<lambda>node G.
                 fold (\<lambda>(parent_name, lag) G. if lag = 0 then G_add_edge G parent_name (name node) else G)
                      (parents node) G)
              (map snd (nodes dbn)) G0)"

fun lookup_all :: "(string \<times> node) list \<Rightarrow> string list \<Rightarrow> error + node list" where
  "lookup_all d [] = Inr []"
| "lookup_all d (k # ks) =
     (case map_of d k of
        None \<Rightarrow> Inl (KeyError k)
      | Some n \<Rightarrow> (case lookup_all d ks of Inl e \<Rightarrow> Inl e | Inr ns \<Rightarrow> Inr (n # ns)))"

definition get_topological_order :: "DBN \<Rightarrow> error + node list" where
  "get_topological_order dbn =
     (case topological_sort (build_graph dbn) of
        Inl e \<Rightarrow> (if e = NetworkXUnfeasible then Inl ValueError_cycle_detected else Inl e)
      | Inr ordered_names \<Rightarrow> lookup_all (nodes dbn) ordered_names)"

section \<open>The sequential sampler (samplers/sequential.py)\<close>

text \<open>A value stored in the table: a number, or a calendar timestamp of the time column.\<close>

datatype cell = Num real | Stamp timestamp

fun cell_of_time :: "time_value \<Rightarrow> cell" where
  "cell_of_time (TInt i) = Num (of_int i)"
| "cell_of_time (TStamp s) = Stamp s"

type_synonym table = "(string \<times> cell list) list"

text \<open>
  What the sampler takes from outside the repository: the two pandas functions behind
  \<^verbatim>\<open>generate_datetime_series\<close> (each returns its result or fails with a message), the
  order in which Python iterates a set built from the given elements, and the standard
  normal draw behind the evaluation of a node at a timestep (every evaluation creates a
  fresh generator, so the draws are independent of each other).
\<close>

datatype start_value = StartString string | StartParsed timestamp

record environment =
  pd_to_datetime :: "string \<Rightarrow> string \<Rightarrow> string + timestamp"
  pd_date_range :: "start_value \<Rightarrow> int \<Rightarrow> string \<Rightarrow> string + timestamp list"
  set_order :: "string list \<Rightarrow> string list"
  draw :: "int \<Rightarrow> string \<Rightarrow> real"

text \<open>utils/utilities.py\<close>

definition generate_datetime_series ::
    "environment \<Rightarrow> int \<Rightarrow> string \<Rightarrow> string \<Rightarrow> string option \<Rightarrow> error + timestamp list" where
  "generate_datetime_series ev length_of_series start freq fmt =
     (case fmt of
        Some f \<Rightarrow>
          (case pd_to_datetime ev start f of
             Inl msg \<Rightarrow> Inl (PandasError msg)
           | Inr parsed \<Rightarrow>
               (case pd_date_range ev (StartParsed parsed) length_of_series freq of
                  Inl msg \<Rightarrow> Inl (PandasError msg)
                | Inr stamps \<Rightarrow> Inr stamps))
      | None \<Rightarrow>
          (case pd_date_range ev (StartString start) length_of_series freq of
             Inl msg \<Rightarrow> Inl (PandasError msg)
           | Inr stamps \<Rightarrow> Inr stamps))"

text \<open>The keyword arguments of \<^verbatim>\<open>Sampler.generate\<close>.\<close>

record generate_args =
  n_steps :: int
  initial_values :: "(string \<times> real list) list option"
  replacement_value_for_non_existing_parents :: real
  time_column_name :: string
  start_time :: "string option"
  frequency :: "string option"
  start_time_format :: "string option"
  exclude_temporal_nodes_from_output :: bool

text \<open>A call that gives the number of steps only: every other argument has its default.\<close>

definition default_args :: "int \<Rightarrow> generate_args" where
  "default_args n =
     \<lparr>n_steps = n, initial_values = None, replacement_value_for_non_existing_parents = 0,
      time_column_name = ''Time'', start_time = None, frequency = None, start_time_format = None,
      exclude_temporal_nodes_from_output = False\<rparr>"

text \<open>The time axis: the check of the start/frequency pair, then the calendar axis or
  \<^verbatim>\<open>list(range(n_steps))\<close>.\<close>

definition time_axis :: "environment \<Rightarrow> generate_args \<Rightarrow> error + time_value list" where
  "time_axis ev a =
     (if start_time a \<noteq> None \<and> frequency a = None then Inl ValueError_start_time_without_frequency
      else if start_time a = None \<and> frequency a \<noteq> None then Inl ValueError_frequency_without_start_time
      else if start_time a \<noteq> None \<and> frequency a \<noteq> None then
        (case generate_datetime_series ev (n_steps a) (the (start_time a)) (the (frequency a))
                (start_time_format a) of
           Inl e \<Rightarrow> Inl e
         | Inr stamps \<Rightarrow> Inr (map TStamp stamps))
      else Inr (map TInt [0..n_steps a - 1]))"

text \<open>\<^verbatim>\<open>node.time_feature.evaluate(time)\<close>; the feature is \<^verbatim>\<open>None\<close> until it is set.\<close>

definition node_time_feature_evaluate :: "node \<Rightarrow> time_value \<Rightarrow> error + cell" where
  "node_time_feature_evaluate n t =
     (case time_feature n of
        None \<Rightarrow> Inl AttributeError
      | Some tf \<Rightarrow> (case time_feature_evaluate tf t of Inl e \<Rightarrow> Inl e | Inr i \<Rightarrow> Inr (Num (of_int i))))"

text \<open>A list comprehension whose body may raise.\<close>

fun map_raise :: "('a \<Rightarrow> error + 'b) \<Rightarrow> 'a list \<Rightarrow> error + 'b list" where
  "map_raise f [] = Inr []"
| "map_raise f (x # xs) =
     (case f x of
        Inl e \<Rightarrow> Inl e
      | Inr y \<Rightarrow> (case map_raise f xs of Inl e \<Rightarrow> Inl e | Inr ys \<Rightarrow> Inr (y # ys)))"

text \<open>The loop that stores the derived initial window of every temporal node into
  \<^verbatim>\<open>initial_values\<close>.\<close>

fun backfill_temporal :: "node list \<Rightarrow> time_value list \<Rightarrow> table \<Rightarrow> error + table" where
  "backfill_temporal [] window iv = Inr iv"
| "backfill_temporal (n # ns) window iv =
     (if is_TemporalNode n then
        (case map_raise (node_time_feature_evaluate n) window of
           Inl e \<Rightarrow> Inl e
         | Inr vals \<Rightarrow> backfill_temporal ns window (dict_set iv (name n) vals))
      else backfill_temporal ns window iv)"

text \<open>The loop over \<^verbatim>\<open>all_nodes\<close> that checks the length of every entry and writes it
  over the first \<^verbatim>\<open>max_lag\<close> rows of the node's column (a slice assignment).\<close>

fun seed_initial :: "int \<Rightarrow> table \<Rightarrow> string list \<Rightarrow> table \<Rightarrow> error + table" where
  "seed_initial ml iv [] ts = Inr ts"
| "seed_initial ml iv (current_node_name # rest) ts =
     (case map_of iv current_node_name of
        None \<Rightarrow> Inl (KeyError current_node_name)
      | Some vals \<Rightarrow>
          if int (length vals) \<noteq> ml
          then Inl (ValueError_expected_values ml current_node_name (length vals))
          else (case map_of ts current_node_name of
                  None \<Rightarrow> Inl (KeyError current_node_name)
                | Some col \<Rightarrow>
                    seed_initial ml iv rest (dict_set ts current_node_name (vals @ py_drop ml col))))"

definition apply_initial_values ::
    "environment \<Rightarrow> DBN \<Rightarrow> time_value list \<Rightarrow> table \<Rightarrow> table \<Rightarrow> error + table" where
  "apply_initial_values ev dbn axis iv ts =
     (case backfill_temporal (map snd (nodes dbn)) (py_take (max_lag dbn) axis) iv of
        Inl e \<Rightarrow> Inl e
      | Inr iv1 \<Rightarrow>
          (let set_of_nodes_in_initial_values = map fst iv1;
               all_nodes = map fst (nodes dbn)
           in if set all_nodes \<noteq> set set_of_nodes_in_initial_values
              then Inl (ValueError_nodes_not_provided
                         (set_order ev (filter (\<lambda>k. k \<notin> set set_of_nodes_in_initial_values) all_nodes)))
              else seed_initial (max_lag dbn) iv1 (set_order ev all_nodes) ts))"

text \<open>
  The placeholder table (0.0 in every row of every node column; the source builds it before
  the start/frequency check, and nothing in it can fail), the time column stored under its
  name, and the block of the initial values, entered when the mapping is given and not
  empty. The entries of the mapping are numbers; the block adds the derived windows of the
  temporal nodes to it.
\<close>

definition seed_timeseries :: "environment \<Rightarrow> DBN \<Rightarrow> generate_args \<Rightarrow> time_value list \<Rightarrow> error + table" where
  "seed_timeseries ev dbn a axis =
     (let timeseries = map (\<lambda>node_name. (node_name, replicate (nat (n_steps a)) (Num 0))) (map fst (nodes dbn));
          timeseries = dict_set timeseries (time_column_name a) (map cell_of_time axis)
      in case initial_values a of
           None \<Rightarrow> Inr timeseries
         | Some iv \<Rightarrow>
             if iv = [] then Inr timeseries
             else apply_initial_values ev dbn axis (map (\<lambda>kv. (fst kv, map Num (snd kv))) iv) timeseries)"

text \<open>The parent values of a node at a timestep.\<close>

fun parentwise_values ::
    "table \<Rightarrow> real \<Rightarrow> int \<Rightarrow> (string \<times> int) list \<Rightarrow> ((string \<times> int) \<times> cell) list
      \<Rightarrow> error + ((string \<times> int) \<times> cell) list" where
  "parentwise_values ts dflt current_timestep [] pv = Inr pv"
| "parentwise_values ts dflt current_timestep ((parent_node_name, lag) # ps) pv =
     (let lagged_timestep = current_timestep - lag
      in if lagged_timestep \<ge> 0 then
           (case map_of ts parent_node_name of
              None \<Rightarrow> Inl (KeyError parent_node_name)
            | Some col \<Rightarrow>
                (case py_index col lagged_timestep of
                   Inl e \<Rightarrow> Inl e
                 | Inr v \<Rightarrow> parentwise_values ts dflt current_timestep ps
                              (dict_set pv (parent_node_name, lag) v)))
         else parentwise_values ts dflt current_timestep ps
                (dict_set pv (parent_node_name, lag) (Num dflt)))"

text \<open>The product of a weight and a timestamp raises \<^verbatim>\<open>TypeError\<close>.\<close>

fun cell_values :: "('k \<times> cell) list \<Rightarrow> error + ('k \<times> real) list" where
  "cell_values [] = Inr []"
| "cell_values ((k, Num x) # kvs) =
     (case cell_values kvs of Inl e \<Rightarrow> Inl e | Inr vs \<Rightarrow> Inr ((k, x) # vs))"
| "cell_values ((k, Stamp s) # kvs) = Inl TypeError"

text \<open>\<^verbatim>\<open>current_node.cpd.evaluate(parent_values = parentwise_values)\<close>; the CPD is
  \<^verbatim>\<open>None\<close> until it is set.\<close>

definition node_cpd_evaluate :: "node \<Rightarrow> real \<Rightarrow> ((string \<times> int) \<times> cell) list \<Rightarrow> error + cell" where
  "node_cpd_evaluate n z pv =
     (case cpd n of
        None \<Rightarrow> Inl AttributeError
      | Some c \<Rightarrow>
          (case cell_values pv of
             Inl e \<Rightarrow> Inl e
           | Inr vals \<Rightarrow> (case evaluate c z vals of Inl e \<Rightarrow> Inl e | Inr y \<Rightarrow> Inr (Num y))))"

text \<open>The value of a node at a timestep: from its parents through its distribution, or from
  the current entry of the time axis through its time feature.\<close>

definition evaluate_node ::
    "environment \<Rightarrow> real \<Rightarrow> table \<Rightarrow> time_value \<Rightarrow> int \<Rightarrow> node \<Rightarrow> error + cell" where
  "evaluate_node ev dflt ts current_time current_timestep n =
     (if \<not> is_TemporalNode n then
        (case parentwise_values ts dflt current_timestep (parents n) [] of
           Inl e \<Rightarrow> Inl e
         | Inr pv \<Rightarrow> node_cpd_evaluate n (draw ev current_timestep (name n)) pv)
      else node_time_feature_evaluate n current_time)"

text \<open>The loop over the nodes at one timestep, and the loop over the timesteps.\<close>

fun sample_timestep ::
    "environment \<Rightarrow> real \<Rightarrow> time_value \<Rightarrow> int \<Rightarrow> node list \<Rightarrow> table \<Rightarrow> error + table" where
  "sample_timestep ev dflt current_time current_timestep [] ts = Inr ts"
| "sample_timestep ev dflt current_time current_timestep (n # ns) ts =
     (case evaluate_node ev dflt ts current_time current_timestep n of
        Inl e \<Rightarrow> Inl e
      | Inr v \<Rightarrow>
          (case map_of ts (name n) of
             None \<Rightarrow> Inl (KeyError (name n))
           | Some col \<Rightarrow>
               (case py_store col current_timestep v of
                  Inl e \<Rightarrow> Inl e
                | Inr col' \<Rightarrow>
                    sample_timestep ev dflt current_time current_timestep ns (dict_set ts (name n) col'))))"

fun sample_timesteps ::
    "environment \<Rightarrow> real \<Rightarrow> node list \<Rightarrow> (time_value \<times> int) list \<Rightarrow> table \<Rightarrow> error + table" where
  "sample_timesteps ev dflt order [] ts = Inr ts"
| "sample_timesteps ev dflt order ((current_time, current_timestep) # rest) ts =
     (case sample_timestep ev dflt current_time current_timestep order ts of
        Inl e \<Rightarrow> Inl e
      | Inr ts' \<Rightarrow> sample_timesteps ev dflt order rest ts')"

text \<open>\<^verbatim>\<open>pd.DataFrame(data=timeseries)\<close> on a dictionary of lists: the lists must have one
  length.\<close>

definition DataFrame :: "table \<Rightarrow> error + table" where
  "DataFrame data =
     (case data of
        [] \<Rightarrow> Inr []
      | (k, col) # rest \<Rightarrow>
          if list_all (\<lambda>kc. length (snd kc) = length col) rest then Inr data
          else Inl ValueError_unequal_column_lengths)"

text \<open>
  \<^verbatim>\<open>df.loc[: stop]\<close>, the key being the single slice \<^verbatim>\<open>slice(None, stop)\<close>: pandas
  slices the rows by label, and with a list as the stop label the lookup of the bound in the
  row index fails.
\<close>

definition loc_rows_until :: "table \<Rightarrow> string list \<Rightarrow> error + table" where
  "loc_rows_until df stop = Inl InvalidIndexError"

text \<open>The table that is returned.\<close>

definition output_table :: "generate_args \<Rightarrow> node list \<Rightarrow> table \<Rightarrow> error + table" where
  "output_table a nodes_in_topological_order timeseries =
     (case DataFrame timeseries of
        Inl e \<Rightarrow> Inl e
      | Inr timeseries_dataset \<Rightarrow>
          if exclude_temporal_nodes_from_output a then
            loc_rows_until timeseries_dataset
              (map name (filter (\<lambda>n. \<not> is_TemporalNode n) nodes_in_topological_order)
                 @ [time_column_name a])
          else Inr timeseries_dataset)"

text \<open>Sampling starts at timestep 0 when \<^verbatim>\<open>initial_values is None\<close>, and at
  \<open>max_lag\<close> otherwise.\<close>

definition starting_timestep_for_evaluation :: "DBN \<Rightarrow> generate_args \<Rightarrow> int" where
  "starting_timestep_for_evaluation dbn a = (if initial_values a = None then 0 else max_lag dbn)"

text \<open>
  \<^verbatim>\<open>Sampler.generate\<close>: the time axis, the order of the nodes, the seeded table, the loop
  over the timesteps \<^verbatim>\<open>zip(axis[start:], range(start, n_steps))\<close> with the loop over the
  nodes inside, and the output table. The first step that raises ends the call. The loop
  takes its time values from the time column once, before it writes; they are the entries
  of the axis from \<open>start\<close> on, since the initial values overwrite rows before \<open>start\<close>
  only.
\<close>

definition generate :: "environment \<Rightarrow> DBN \<Rightarrow> generate_args \<Rightarrow> error + table" where
  "generate ev dbn a =
     (case time_axis ev a of
        Inl e \<Rightarrow> Inl e
      | Inr axis \<Rightarrow>
          (case get_topological_order dbn of
             Inl e \<Rightarrow> Inl e
           | Inr nodes_in_topological_order \<Rightarrow>
               (case seed_timeseries ev dbn a axis of
                  Inl e \<Rightarrow> Inl e
                | Inr timeseries \<Rightarrow>
                    (case sample_timesteps ev (replacement_value_for_non_existing_parents a)
                            nodes_in_topological_order
                            (zip (py_drop (starting_timestep_for_evaluation dbn a) axis)
                                 [starting_timestep_for_evaluation dbn a..n_steps a - 1])
                            timeseries of
                       Inl e \<Rightarrow> Inl e
                     | Inr timeseries' \<Rightarrow> output_table a nodes_in_topological_order timeseries'))))"

section \<open>Correctness of the topological sort\<close>

text \<open>The position of the first occurrence of an element of a list.\<close>

fun index_of :: "'a list \<Rightarrow> 'a \<Rightarrow> nat" where
  "index_of [] x = 0"
| "index_of (y # ys) x = (if x = y then 0 else Suc (index_of ys x))"

text \<open>A graph as \<^verbatim>\<open>add_node\<close> and \<^verbatim>\<open>add_edge\<close> build it.\<close>

definition gwf :: "'a digraph \<Rightarrow> bool" where
  "gwf G \<longleftrightarrow> distinct (g_nodes G) \<and> distinct (g_edges G) \<and>
     (\<forall>e \<in> set (g_edges G). fst e \<in> set (g_nodes G) \<and> snd e \<in> set (g_nodes G))"

text \<open>The number of edges into \<open>c\<close> from vertices outside \<open>P\<close>.\<close>

definition remaining :: "'a digraph \<Rightarrow> 'a list \<Rightarrow> 'a \<Rightarrow> int" where
  "remaining G P c = int (length (filter (\<lambda>e. snd e = c \<and> fst e \<notin> set P) (g_edges G)))"

text \<open>
  The invariant of the sort, for the vertices \<open>P\<close> already worked through, the vertices
  \<open>Q\<close> waiting in the current and the next generation, and the map \<open>m\<close>: the map holds
  exactly the vertices outside \<open>P\<close> and \<open>Q\<close>, each with its number of edges from vertices
  outside \<open>P\<close>, which is positive; every edge into a vertex of \<open>P\<close> or \<open>Q\<close> starts
  earlier in the list \<open>P @ Q\<close>.
\<close>

definition kahn_inv :: "'a digraph \<Rightarrow> 'a list \<Rightarrow> 'a list \<Rightarrow> ('a \<times> int) list \<Rightarrow> bool" where
  "kahn_inv G P Q m \<longleftrightarrow>
     distinct (P @ Q) \<and> set (P @ Q) \<subseteq> set (g_nodes G) \<and> distinct (map fst m) \<and>
     (\<forall>c. map_of m c = (if c \<in> set (g_nodes G) \<and> c \<notin> set (P @ Q) then Some (remaining G P c) else None)) \<and>
     (\<forall>c \<in> set (g_nodes G). c \<notin> set (P @ Q) \<longrightarrow> 0 < remaining G P c) \<and>
     (\<forall>c \<in> set (P @ Q). remaining G P c = 0) \<and>
     (\<forall>e \<in> set (g_edges G). snd e \<in> set (P @ Q) \<longrightarrow> index_of (P @ Q) (fst e) < index_of (P @ Q) (snd e))"

lemma index_of_less_iff: "index_of xs x < length xs \<longleftrightarrow> x \<in> set xs"
  by (induction xs) auto

lemma index_of_append_in: "x \<in> set xs \<Longrightarrow> index_of (xs @ ys) x = index_of xs x"
  by (induction xs) auto

lemma index_of_append_notin: "x \<notin> set xs \<Longrightarrow> index_of (xs @ ys) x = length xs + index_of ys x"
  by (induction xs) auto

lemma index_of_nth: "x \<in> set xs \<Longrightarrow> xs ! index_of xs x = x"
  by (induction xs) auto

lemma map_of_dict_del: "map_of (dict_del m k) = (map_of m)(k := None)"
  by (induction m) (auto simp: dict_del_def fun_eq_iff)

lemma keys_dict_set: "set (map fst (dict_set m k v)) = insert k (set (map fst m))"
  by (induction m k v rule: dict_set.induct) auto

lemma distinct_dict_set: "distinct (map fst m) \<Longrightarrow> distinct (map fst (dict_set m k v))"
proof (induction m k v rule: dict_set.induct)
  case (1 k v) then show ?case by simp
next
  case (2 k' v' d k v)
  show ?case
  proof (cases "k' = k")
    case True then show ?thesis using 2 by simp
  next
    case False
    have "k' \<notin> set (map fst (dict_set d k v))"
      using False "2.prems" by (simp only: keys_dict_set) auto
    then show ?thesis using False 2 by simp
  qed
qed

lemma distinct_dict_del: "distinct (map fst m) \<Longrightarrow> distinct (map fst (dict_del m k))"
  by (simp add: dict_del_def distinct_map_filter)

lemma relax_spec:
  assumes "distinct cs" "distinct (map fst m)" "\<forall>c\<in>set cs. map_of m c \<noteq> None"
  shows "\<exists>m'. relax m zs cs = Inr (m', zs @ filter (\<lambda>c. map_of m c = Some 1) cs) \<and>
           distinct (map fst m') \<and>
           (\<forall>c. map_of m' c =
              (if c \<in> set cs
               then (if map_of m c = Some 1 then None else map_option (\<lambda>d. d - 1) (map_of m c))
               else map_of m c))"
  using assms
proof (induction cs arbitrary: m zs)
  case Nil
  then show ?case by simp
next
  case (Cons c cs)
  from Cons.prems obtain d where d: "map_of m c = Some d" by auto
  define m1 where "m1 = (if d - 1 = 0 then dict_del (dict_set m c (d - 1)) c else dict_set m c (d - 1))"
  define zs1 where "zs1 = (if d - 1 = 0 then zs @ [c] else zs)"
  have step: "relax m zs (c # cs) = relax m1 zs1 cs"
    using d by (simp add: m1_def zs1_def Let_def)
  have m1: "map_of m1 = (if d = 1 then (map_of m)(c := None) else (map_of m)(c \<mapsto> d - 1))"
    by (auto simp: m1_def map_of_dict_del map_of_dict_set)
  have dm1: "distinct (map fst m1)"
    using Cons.prems(2) by (simp add: m1_def distinct_dict_set distinct_dict_del)
  have cnot: "c \<notin> set cs" and dcs: "distinct cs" using Cons.prems(1) by auto
  have same: "\<And>x. x \<in> set cs \<Longrightarrow> map_of m1 x = map_of m x"
    using cnot by (auto simp: m1)
  have pre: "\<forall>x\<in>set cs. map_of m1 x \<noteq> None" using Cons.prems(3) same by auto
  from Cons.IH[OF dcs dm1 pre, of zs1] obtain m' where
    r: "relax m1 zs1 cs = Inr (m', zs1 @ filter (\<lambda>c. map_of m1 c = Some 1) cs)" and
    dm': "distinct (map fst m')" and
    mm: "\<forall>x. map_of m' x =
              (if x \<in> set cs
               then (if map_of m1 x = Some 1 then None else map_option (\<lambda>d. d - 1) (map_of m1 x))
               else map_of m1 x)"
    by blast
  have f: "filter (\<lambda>c. map_of m1 c = Some 1) cs = filter (\<lambda>c. map_of m c = Some 1) cs"
    using same by (auto intro: filter_cong)
  have z: "zs1 @ filter (\<lambda>c. map_of m c = Some 1) cs = zs @ filter (\<lambda>c. map_of m c = Some 1) (c # cs)"
    using d by (auto simp: zs1_def)
  have res: "relax m zs (c # cs) = Inr (m', zs @ filter (\<lambda>c. map_of m c = Some 1) (c # cs))"
    using step r f z by simp
  have maps: "\<forall>x. map_of m' x =
              (if x \<in> set (c # cs)
               then (if map_of m x = Some 1 then None else map_option (\<lambda>d. d - 1) (map_of m x))
               else map_of m x)"
  proof
    fix x
    show "map_of m' x =
              (if x \<in> set (c # cs)
               then (if map_of m x = Some 1 then None else map_option (\<lambda>d. d - 1) (map_of m x))
               else map_of m x)"
    proof (cases "x \<in> set cs")
      case True
      then show ?thesis using mm same by simp
    next
      case False
      then have "map_of m' x = map_of m1 x" using mm by simp
      then show ?thesis using False d by (auto simp: m1)
    qed
  qed
  show ?case using res dm' maps by blast
qed

lemma length_filter_eq_distinct:
  "distinct xs \<Longrightarrow> length (filter (\<lambda>y. y = x) xs) = (if x \<in> set xs then 1 else 0)"
  by (induction xs) auto

lemma length_filter_split:
  "length (filter A xs) = length (filter (\<lambda>x. A x \<and> B x) xs) + length (filter (\<lambda>x. A x \<and> \<not> B x) xs)"
  by (induction xs) auto

lemma remaining_snoc:
  assumes "distinct (g_edges G)" "v \<notin> set P"
  shows "remaining G (P @ [v]) c = remaining G P c - (if (v, c) \<in> set (g_edges G) then 1 else 0)"
proof -
  let ?E = "g_edges G"
  have a: "filter (\<lambda>e. (snd e = c \<and> fst e \<notin> set P) \<and> fst e = v) ?E = filter (\<lambda>e. e = (v, c)) ?E"
    using assms(2) by (intro filter_cong) auto
  have b: "filter (\<lambda>e. (snd e = c \<and> fst e \<notin> set P) \<and> \<not> fst e = v) ?E
         = filter (\<lambda>e. snd e = c \<and> fst e \<notin> set (P @ [v])) ?E"
    by (intro filter_cong) auto
  have "length (filter (\<lambda>e. snd e = c \<and> fst e \<notin> set P) ?E)
        = length (filter (\<lambda>e. e = (v, c)) ?E) + length (filter (\<lambda>e. snd e = c \<and> fst e \<notin> set (P @ [v])) ?E)"
    using length_filter_split[of "\<lambda>e. snd e = c \<and> fst e \<notin> set P" ?E "\<lambda>e. fst e = v"]
    by (simp only: a b)
  then show ?thesis
    using length_filter_eq_distinct[OF assms(1), of "(v, c)"]
    by (simp add: remaining_def)
qed

lemma remaining_zero_preds:
  "remaining G P c = 0 \<Longrightarrow> (p, c) \<in> set (g_edges G) \<Longrightarrow> p \<in> set P"
  by (auto simp: remaining_def filter_empty_conv)

lemma remaining_pos_pred:
  "0 < remaining G P c \<Longrightarrow> \<exists>p. (p, c) \<in> set (g_edges G) \<and> p \<notin> set P"
proof -
  assume "0 < remaining G P c"
  then have "filter (\<lambda>e. snd e = c \<and> fst e \<notin> set P) (g_edges G) \<noteq> []"
    by (auto simp: remaining_def)
  then obtain e where e: "e \<in> set (g_edges G)" "snd e = c" "fst e \<notin> set P"
    by (auto simp: filter_empty_conv)
  have "(fst e, c) \<in> set (g_edges G)" using e(1,2) by (metis prod.collapse)
  with e(3) show ?thesis by blast
qed

lemma remaining_nonneg: "0 \<le> remaining G P c"
  by (simp add: remaining_def)

lemma set_neighbors: "set (neighbors G v) = {c. (v, c) \<in> set (g_edges G)}"
  by (auto simp: neighbors_def image_iff)

lemma distinct_neighbors: "distinct (g_edges G) \<Longrightarrow> distinct (neighbors G v)"
  unfolding neighbors_def
  by (rule distinct_map[THEN iffD2]) (auto simp: inj_on_def prod_eq_iff)

lemma kahn_invI:
  assumes "distinct (P @ Q)" "set (P @ Q) \<subseteq> set (g_nodes G)" "distinct (map fst m)"
    "\<And>c. map_of m c = (if c \<in> set (g_nodes G) \<and> c \<notin> set (P @ Q) then Some (remaining G P c) else None)"
    "\<And>c. c \<in> set (g_nodes G) \<Longrightarrow> c \<notin> set (P @ Q) \<Longrightarrow> 0 < remaining G P c"
    "\<And>c. c \<in> set (P @ Q) \<Longrightarrow> remaining G P c = 0"
    "\<And>p c. (p, c) \<in> set (g_edges G) \<Longrightarrow> c \<in> set (P @ Q) \<Longrightarrow> index_of (P @ Q) p < index_of (P @ Q) c"
  shows "kahn_inv G P Q m"
  unfolding kahn_inv_def
proof (intro conjI ballI allI impI)
  fix e assume "e \<in> set (g_edges G)" "snd e \<in> set (P @ Q)"
  then show "index_of (P @ Q) (fst e) < index_of (P @ Q) (snd e)"
    using assms(7)[of "fst e" "snd e"] by simp
qed (use assms in blast)+

lemma kahn_inv_distinct: "kahn_inv G P Q m \<Longrightarrow> distinct (P @ Q)"
  unfolding kahn_inv_def by (elim conjE)
lemma kahn_inv_subset: "kahn_inv G P Q m \<Longrightarrow> set (P @ Q) \<subseteq> set (g_nodes G)"
  unfolding kahn_inv_def by (elim conjE)
lemma kahn_inv_keys: "kahn_inv G P Q m \<Longrightarrow> distinct (map fst m)"
  unfolding kahn_inv_def by (elim conjE)
lemma kahn_inv_map: "kahn_inv G P Q m \<Longrightarrow>
    map_of m c = (if c \<in> set (g_nodes G) \<and> c \<notin> set (P @ Q) then Some (remaining G P c) else None)"
  unfolding kahn_inv_def by (elim conjE allE[of _ c])
lemma kahn_inv_pos: "kahn_inv G P Q m \<Longrightarrow> c \<in> set (g_nodes G) \<Longrightarrow> c \<notin> set (P @ Q) \<Longrightarrow> 0 < remaining G P c"
  unfolding kahn_inv_def by (elim conjE) (rule mp, erule bspec)
lemma kahn_inv_zero: "kahn_inv G P Q m \<Longrightarrow> c \<in> set (P @ Q) \<Longrightarrow> remaining G P c = 0"
  unfolding kahn_inv_def by (elim conjE) (erule bspec)
lemma kahn_inv_order: "kahn_inv G P Q m \<Longrightarrow> (p, c) \<in> set (g_edges G) \<Longrightarrow> c \<in> set (P @ Q)
    \<Longrightarrow> index_of (P @ Q) p < index_of (P @ Q) c"
proof -
  assume a: "kahn_inv G P Q m" "(p, c) \<in> set (g_edges G)" "c \<in> set (P @ Q)"
  from a(1) have "\<forall>e \<in> set (g_edges G). snd e \<in> set (P @ Q) \<longrightarrow> index_of (P @ Q) (fst e) < index_of (P @ Q) (snd e)"
    unfolding kahn_inv_def by (elim conjE)
  from bspec[OF this a(2)] a(3) show ?thesis by auto
qed

lemma kahn_step:
  assumes wf: "gwf G" and inv: "kahn_inv G P (v # R) m"
  shows "\<exists>m' newz. relax m zs (neighbors G v) = Inr (m', zs @ newz) \<and>
           kahn_inv G (P @ [v]) (R @ newz) m'"
proof -
  let ?V = "set (g_nodes G)" and ?E = "set (g_edges G)"
  let ?L = "P @ v # R"
  define cs where "cs = neighbors G v"
  define newz where "newz = filter (\<lambda>c. map_of m c = Some 1) cs"
  have dE: "distinct (g_edges G)" using wf by (simp add: gwf_def)
  have EV: "\<And>p c. (p, c) \<in> ?E \<Longrightarrow> p \<in> ?V \<and> c \<in> ?V"
    using wf unfolding gwf_def by fastforce
  note dL = kahn_inv_distinct[OF inv] and LV = kahn_inv_subset[OF inv] and dm = kahn_inv_keys[OF inv]
    and mp = kahn_inv_map[OF inv] and pos = kahn_inv_pos[OF inv] and zero = kahn_inv_zero[OF inv]
    and ord = kahn_inv_order[OF inv]
  have vP: "v \<notin> set P" using dL by simp
  have cs_iff: "\<And>c. c \<in> set cs \<longleftrightarrow> (v, c) \<in> ?E" by (simp add: cs_def set_neighbors)
  have dcs: "distinct cs" unfolding cs_def using dE by (rule distinct_neighbors)
  have cs_notin: "\<And>c. c \<in> set cs \<Longrightarrow> c \<notin> set ?L"
  proof
    fix c assume c: "c \<in> set cs" and "c \<in> set ?L"
    then have "remaining G P c = 0" using zero by blast
    then have "v \<in> set P" using c cs_iff remaining_zero_preds by metis
    then show False using vP by simp
  qed
  have cs_V: "\<And>c. c \<in> set cs \<Longrightarrow> c \<in> ?V" using cs_iff EV by blast
  have cs_m: "\<And>c. c \<in> set cs \<Longrightarrow> map_of m c = Some (remaining G P c)"
    using cs_notin cs_V mp by simp
  have rem': "\<And>c. remaining G (P @ [v]) c = remaining G P c - (if c \<in> set cs then 1 else 0)"
    using remaining_snoc[OF dE vP] cs_iff by simp
  have newz_iff: "\<And>c. c \<in> set newz \<longleftrightarrow> c \<in> set cs \<and> remaining G P c = 1"
    using cs_m by (auto simp: newz_def)
  have dnewz: "distinct newz" using dcs by (simp add: newz_def)
  have pre: "\<forall>c\<in>set cs. map_of m c \<noteq> None" using cs_m by simp
  from relax_spec[OF dcs dm pre, of zs] obtain m' where
    r0: "relax m zs cs = Inr (m', zs @ newz)" and dm': "distinct (map fst m')" and
    mm: "\<And>c. map_of m' c =
              (if c \<in> set cs
               then (if map_of m c = Some 1 then None else map_option (\<lambda>d. d - 1) (map_of m c))
               else map_of m c)"
    unfolding newz_def by blast
  have LL: "(P @ [v]) @ (R @ newz) = ?L @ newz" by simp
  have setP': "set (P @ [v]) \<subseteq> set ?L" by auto
  have "kahn_inv G (P @ [v]) (R @ newz) m'"
  proof (rule kahn_invI; (unfold LL)?)
    show "distinct (?L @ newz)"
      using dL dnewz cs_notin newz_iff by (simp only: distinct_append) blast
    show "set (?L @ newz) \<subseteq> ?V" using LV cs_V newz_iff by auto
    show "distinct (map fst m')" by (rule dm')
  next
    fix c
    show "map_of m' c = (if c \<in> ?V \<and> c \<notin> set (?L @ newz) then Some (remaining G (P @ [v]) c) else None)"
    proof (cases "c \<in> set cs")
      case True
      note m1 = cs_m[OF True] and n1 = cs_notin[OF True] and v1 = cs_V[OF True]
      show ?thesis
      proof (cases "remaining G P c = 1")
        case True
        then have "c \<in> set newz" using \<open>c \<in> set cs\<close> newz_iff by simp
        moreover have "map_of m' c = None" using mm[of c] m1 True \<open>c \<in> set cs\<close> by simp
        ultimately show ?thesis by simp
      next
        case False
        then have "c \<notin> set newz" using newz_iff by simp
        moreover have "map_of m' c = Some (remaining G P c - 1)"
          using mm[of c] m1 False \<open>c \<in> set cs\<close> by simp
        ultimately show ?thesis using n1 v1 rem'[of c] \<open>c \<in> set cs\<close> by simp
      qed
    next
      case False
      then have "c \<notin> set newz" using newz_iff by simp
      moreover have "map_of m' c = map_of m c" using mm[of c] False by simp
      ultimately show ?thesis using mp[of c] rem'[of c] False by simp
    qed
  next
    fix c assume c: "c \<in> ?V" "c \<notin> set (?L @ newz)"
    then have cL: "c \<notin> set ?L" and cn: "c \<notin> set newz" by auto
    have p: "0 < remaining G P c" using pos c(1) cL by blast
    show "0 < remaining G (P @ [v]) c"
    proof (cases "c \<in> set cs")
      case True
      then have "remaining G P c \<noteq> 1" using cn newz_iff by simp
      then show ?thesis using p rem'[of c] by simp
    next
      case False
      then show ?thesis using p rem'[of c] by simp
    qed
  next
    fix c assume "c \<in> set (?L @ newz)"
    then consider "c \<in> set ?L" | "c \<in> set newz" by auto
    then show "remaining G (P @ [v]) c = 0"
    proof cases
      case 1
      then have "remaining G P c = 0" using zero by blast
      moreover have "c \<notin> set cs" using 1 cs_notin by blast
      ultimately show ?thesis using rem'[of c] by simp
    next
      case 2
      then show ?thesis using newz_iff rem'[of c] by simp
    qed
  next
    fix p c assume e: "(p, c) \<in> ?E" and "c \<in> set (?L @ newz)"
    then consider "c \<in> set ?L" | "c \<notin> set ?L" "c \<in> set newz" by auto
    then show "index_of (?L @ newz) p < index_of (?L @ newz) c"
    proof cases
      case 1
      then have lt: "index_of ?L p < index_of ?L c" using ord e by blast
      have "index_of ?L c < length ?L" using 1 by (simp only: index_of_less_iff)
      then have "index_of ?L p < length ?L" using lt by simp
      then have "p \<in> set ?L" by (simp only: index_of_less_iff)
      then show ?thesis using 1 lt by (simp only: index_of_append_in)
    next
      case 2
      then have "remaining G (P @ [v]) c = 0" using newz_iff rem'[of c] by simp
      then have "p \<in> set (P @ [v])" using e remaining_zero_preds by metis
      then have pL: "p \<in> set ?L" using setP' by blast
      then have lt: "index_of ?L p < length ?L" by (simp only: index_of_less_iff)
      have "index_of (?L @ newz) p = index_of ?L p" using pL by (rule index_of_append_in)
      moreover have "index_of (?L @ newz) c = length ?L + index_of newz c"
        using 2(1) by (rule index_of_append_notin)
      ultimately show ?thesis using lt by linarith
    qed
  qed
  then show ?thesis using r0 unfolding cs_def by blast
qed

lemma process_generation_inv:
  assumes wf: "gwf G"
  shows "kahn_inv G P (gen @ zs) m \<Longrightarrow>
    \<exists>m' zs'. process_generation G m zs gen = Inr (m', zs') \<and> kahn_inv G (P @ gen) zs' m'"
proof (induction gen arbitrary: P m zs)
  case Nil
  then show ?case by simp
next
  case (Cons v gen)
  then have inv: "kahn_inv G P (v # (gen @ zs)) m" by simp
  have vV: "v \<in> set (g_nodes G)" using kahn_inv_subset[OF inv] by simp
  from kahn_step[OF wf inv, of zs] obtain m1 newz where
    r: "relax m zs (neighbors G v) = Inr (m1, zs @ newz)" and
    i1: "kahn_inv G (P @ [v]) ((gen @ zs) @ newz) m1" by blast
  from i1 have "kahn_inv G (P @ [v]) (gen @ (zs @ newz)) m1" by simp
  from Cons.IH[OF this] obtain m' zs' where
    "process_generation G m1 (zs @ newz) gen = Inr (m', zs')" "kahn_inv G ((P @ [v]) @ gen) zs' m'"
    by blast
  then show ?case using r vV by simp
qed

lemma loop_inv:
  "gwf G \<Longrightarrow> kahn_inv G P zero m \<Longrightarrow>
     (\<exists>gens. topological_generations_loop G m zero = Inr gens \<and> kahn_inv G (P @ concat gens) [] []) \<or>
     (topological_generations_loop G m zero = Inl NetworkXUnfeasible \<and>
        (\<exists>P' m'. kahn_inv G P' [] m' \<and> m' \<noteq> []))"
proof (induction G m zero arbitrary: P rule: topological_generations_loop.induct)
  case (1 G m zero)
  show ?case
  proof (cases "zero = []")
    case True
    show ?thesis
    proof (cases "m = []")
      case True
      then have "topological_generations_loop G m zero = Inr []"
        using \<open>zero = []\<close> by (subst topological_generations_loop.simps) simp
      then show ?thesis using "1.prems" True \<open>zero = []\<close> by auto
    next
      case False
      then have "topological_generations_loop G m zero = Inl NetworkXUnfeasible"
        using \<open>zero = []\<close> by (subst topological_generations_loop.simps) simp
      then show ?thesis using "1.prems" False \<open>zero = []\<close> by blast
    qed
  next
    case False
    from "1.prems"(2) have "kahn_inv G P (zero @ []) m" by simp
    from process_generation_inv[OF "1.prems"(1) this] obtain m' zero' where
      pg: "process_generation G m [] zero = Inr (m', zero')" and
      inv': "kahn_inv G (P @ zero) zero' m'" by blast
    from "1.IH"[OF False pg refl "1.prems"(1) inv']
    consider gens where "topological_generations_loop G m' zero' = Inr gens"
        "kahn_inv G ((P @ zero) @ concat gens) [] []"
      | "topological_generations_loop G m' zero' = Inl NetworkXUnfeasible"
        "\<exists>P' m'. kahn_inv G P' [] m' \<and> m' \<noteq> []"
      by blast
    then show ?thesis
    proof cases
      case 1
      have "topological_generations_loop G m zero = Inr (zero # gens)"
        using False pg 1(1) by (subst topological_generations_loop.simps) simp
      then show ?thesis using 1(2) by auto
    next
      case 2
      have "topological_generations_loop G m zero = Inl NetworkXUnfeasible"
        using False pg 2(1) by (subst topological_generations_loop.simps) simp
      then show ?thesis using 2(2) by blast
    qed
  qed
qed

lemma map_of_map_self: "map_of (map (\<lambda>v. (v, f v)) xs) c = (if c \<in> set xs then Some (f c) else None)"
  by (induction xs) auto

lemma remaining_Nil: "remaining G [] c = in_degree G c"
  by (simp add: remaining_def in_degree_def)

lemma in_degree_nonneg: "0 \<le> in_degree G c"
  by (simp add: in_degree_def)

lemma kahn_inv_initial:
  assumes "gwf G"
  shows "kahn_inv G [] (filter (\<lambda>v. in_degree G v = 0) (g_nodes G))
           (map (\<lambda>v. (v, in_degree G v)) (filter (\<lambda>v. in_degree G v > 0) (g_nodes G)))"
proof (rule kahn_invI)
  let ?Z = "filter (\<lambda>v. in_degree G v = 0) (g_nodes G)"
  have dV: "distinct (g_nodes G)" using assms by (simp add: gwf_def)
  show "distinct ([] @ ?Z)" using dV by simp
  show "set ([] @ ?Z) \<subseteq> set (g_nodes G)" by auto
  show "distinct (map fst (map (\<lambda>v. (v, in_degree G v)) (filter (\<lambda>v. in_degree G v > 0) (g_nodes G))))"
    using dV by (simp add: comp_def)
  show "map_of (map (\<lambda>v. (v, in_degree G v)) (filter (\<lambda>v. 0 < in_degree G v) (g_nodes G))) c =
         (if c \<in> set (g_nodes G) \<and> c \<notin> set ([] @ ?Z) then Some (remaining G [] c) else None)" for c
    using in_degree_nonneg[of G c] by (simp add: map_of_map_self remaining_Nil)
  show "0 < remaining G [] c" if "c \<in> set (g_nodes G)" "c \<notin> set ([] @ ?Z)" for c
    using that in_degree_nonneg[of G c] by (simp add: remaining_Nil)
  show "remaining G [] c = 0" if "c \<in> set ([] @ ?Z)" for c
    using that by (simp add: remaining_Nil)
  show "index_of ([] @ ?Z) p < index_of ([] @ ?Z) c"
    if "(p, c) \<in> set (g_edges G)" "c \<in> set ([] @ ?Z)" for p c
  proof -
    from that(2) have "remaining G [] c = 0" by (simp add: remaining_Nil)
    from remaining_zero_preds[OF this that(1)] show ?thesis by simp
  qed
qed

lemma kahn_final:
  assumes "gwf G" "kahn_inv G L [] []"
  shows "distinct L \<and> set L = set (g_nodes G) \<and>
         (\<forall>e \<in> set (g_edges G). index_of L (fst e) < index_of L (snd e))"
proof -
  have d: "distinct L" using kahn_inv_distinct[OF assms(2)] by simp
  have s: "set L \<subseteq> set (g_nodes G)" using kahn_inv_subset[OF assms(2)] by simp
  have "c \<in> set L" if "c \<in> set (g_nodes G)" for c
    using kahn_inv_map[OF assms(2), of c] that by (simp split: if_splits)
  then have eq: "set L = set (g_nodes G)" using s by blast
  have "index_of L (fst e) < index_of L (snd e)" if "e \<in> set (g_edges G)" for e
  proof -
    have "snd e \<in> set (g_nodes G)" using assms(1) that by (simp add: gwf_def)
    then have "snd e \<in> set (L @ [])" using eq by simp
    moreover have "(fst e, snd e) \<in> set (g_edges G)" using that by simp
    ultimately show ?thesis using kahn_inv_order[OF assms(2), of "fst e" "snd e"] by simp
  qed
  then show ?thesis using d eq by blast
qed

lemma kahn_stuck_cyclic:
  assumes "gwf G" "kahn_inv G P [] m" "m \<noteq> []"
  shows "\<not> acyclic (set (g_edges G))"
proof
  assume "acyclic (set (g_edges G))"
  then have wf: "wf (set (g_edges G))" by (simp add: finite_acyclic_wf)
  define S where "S = {c \<in> set (g_nodes G). c \<notin> set P}"
  obtain k d where "(k, d) \<in> set m" using assms(3) by (cases m) auto
  then have "map_of m k \<noteq> None" by (metis map_of_eq_None_iff fst_conv image_eqI)
  then have "k \<in> S" using kahn_inv_map[OF assms(2), of k] by (simp add: S_def split: if_splits)
  from wfE_min[OF wf this] obtain z where z: "z \<in> S" "\<And>y. (y, z) \<in> set (g_edges G) \<Longrightarrow> y \<notin> S"
    by blast
  from z(1) have "0 < remaining G P z" using kahn_inv_pos[OF assms(2), of z] by (simp add: S_def)
  from remaining_pos_pred[OF this] obtain p where p: "(p, z) \<in> set (g_edges G)" "p \<notin> set P" by blast
  have "p \<in> set (g_nodes G)" using assms(1) p(1) unfolding gwf_def by fastforce
  then have "p \<in> S" using p(2) by (simp add: S_def)
  then show False using z(2)[OF p(1)] by simp
qed

lemma order_acyclic:
  assumes "\<forall>e \<in> set E. index_of L (fst e) < index_of L (snd e)"
  shows "acyclic (set E)"
proof -
  have "set E \<subseteq> measure (index_of L)" using assms by (auto simp: measure_def inv_image_def)
  then have "wf (set E)" by (rule wf_subset[OF wf_measure])
  then show ?thesis by (rule wf_acyclic)
qed

lemma topological_sort_cases:
  assumes "gwf G"
  shows "(\<exists>L. topological_sort G = Inr L \<and> distinct L \<and> set L = set (g_nodes G) \<and>
            (\<forall>e \<in> set (g_edges G). index_of L (fst e) < index_of L (snd e))) \<or>
         (topological_sort G = Inl NetworkXUnfeasible \<and> \<not> acyclic (set (g_edges G)))"
proof -
  let ?m = "map (\<lambda>v. (v, in_degree G v)) (filter (\<lambda>v. in_degree G v > 0) (g_nodes G))"
  let ?z = "filter (\<lambda>v. in_degree G v = 0) (g_nodes G)"
  from loop_inv[OF assms kahn_inv_initial[OF assms]]
  consider gens where "topological_generations_loop G ?m ?z = Inr gens" "kahn_inv G ([] @ concat gens) [] []"
    | "topological_generations_loop G ?m ?z = Inl NetworkXUnfeasible"
      "\<exists>P' m'. kahn_inv G P' [] m' \<and> m' \<noteq> []"
    by blast
  then show ?thesis
  proof cases
    case 1
    have "topological_sort G = Inr (concat gens)" using 1(1) by (simp add: topological_sort_def)
    moreover from 1(2) have "kahn_inv G (concat gens) [] []" by simp
    ultimately show ?thesis using kahn_final[OF assms] by blast
  next
    case 2
    have "topological_sort G = Inl NetworkXUnfeasible" using 2(1) by (simp add: topological_sort_def)
    then show ?thesis using 2(2) kahn_stuck_cyclic[OF assms] by blast
  qed
qed

lemma topological_sort_acyclic:
  assumes "gwf G" "acyclic (set (g_edges G))"
  shows "\<exists>L. topological_sort G = Inr L \<and> distinct L \<and> set L = set (g_nodes G) \<and>
            (\<forall>e \<in> set (g_edges G). index_of L (fst e) < index_of L (snd e))"
  using topological_sort_cases[OF assms(1)] assms(2) by blast

lemma topological_sort_cyclic:
  assumes "gwf G" "\<not> acyclic (set (g_edges G))"
  shows "topological_sort G = Inl NetworkXUnfeasible"
proof -
  from topological_sort_cases[OF assms(1)] show ?thesis
  proof
    assume "\<exists>L. topological_sort G = Inr L \<and> distinct L \<and> set L = set (g_nodes G) \<and>
            (\<forall>e \<in> set (g_edges G). index_of L (fst e) < index_of L (snd e))"
    then obtain L where "\<forall>e \<in> set (g_edges G). index_of L (fst e) < index_of L (snd e)" by blast
    from order_acyclic[OF this] assms(2) show ?thesis by simp
  qed simp
qed

section \<open>The ordering of a network\<close>

text \<open>The edges of the zero-lag subgraph; every zero-lag parent is a node of the network; a
  network as \<^verbatim>\<open>add_node\<close> calls leave it (every node stored under its own name).\<close>

definition zero_lag_edges :: "DBN \<Rightarrow> (string \<times> string) list" where
  "zero_lag_edges dbn =
     concat (map (\<lambda>n. map (\<lambda>pl. (fst pl, name n)) (filter (\<lambda>pl. snd pl = 0) (parents n)))
                 (map snd (nodes dbn)))"

definition zero_lag_closed :: "DBN \<Rightarrow> bool" where
  "zero_lag_closed dbn = list_all (\<lambda>e. fst e \<in> set (map fst (nodes dbn))) (zero_lag_edges dbn)"

definition dbn_wf :: "DBN \<Rightarrow> bool" where
  "dbn_wf dbn \<longleftrightarrow> distinct (map fst (nodes dbn)) \<and> (\<forall>kn \<in> set (nodes dbn). name (snd kn) = fst kn)"

lemma gwf_init: "gwf DiGraph_init"
  by (simp add: gwf_def DiGraph_init_def)

lemma gwf_add_node: "gwf G \<Longrightarrow> gwf (G_add_node G v)"
  by (auto simp: gwf_def G_add_node_def)

lemma nodes_add_node: "set (g_nodes (G_add_node G v)) = insert v (set (g_nodes G))"
  by (auto simp: G_add_node_def)

lemma edges_add_node: "g_edges (G_add_node G v) = g_edges G"
  by (simp add: G_add_node_def)

lemma gwf_add_edge: "gwf G \<Longrightarrow> gwf (G_add_edge G u v)"
proof -
  assume "gwf G"
  then have g2: "gwf (G_add_node (G_add_node G u) v)" by (intro gwf_add_node)
  have n2: "set (g_nodes (G_add_node (G_add_node G u) v)) = insert v (insert u (set (g_nodes G)))"
    by (simp add: nodes_add_node)
  show ?thesis using g2 n2 unfolding G_add_edge_def Let_def gwf_def by auto
qed

lemma nodes_add_edge: "set (g_nodes (G_add_edge G u v)) = insert u (insert v (set (g_nodes G)))"
  by (auto simp: G_add_edge_def Let_def nodes_add_node)

lemma edges_add_edge: "set (g_edges (G_add_edge G u v)) = insert (u, v) (set (g_edges G))"
  by (auto simp: G_add_edge_def Let_def edges_add_node)

lemma fold_add_node:
  "gwf G \<Longrightarrow> gwf (fold (\<lambda>node_name G. G_add_node G node_name) ks G) \<and>
     set (g_nodes (fold (\<lambda>node_name G. G_add_node G node_name) ks G)) = set (g_nodes G) \<union> set ks \<and>
     g_edges (fold (\<lambda>node_name G. G_add_node G node_name) ks G) = g_edges G"
  by (induction ks arbitrary: G) (auto simp: gwf_add_node nodes_add_node edges_add_node)

lemma fold_parents:
  "gwf G \<Longrightarrow>
   gwf (fold (\<lambda>(parent_name, lag) G. if lag = 0 then G_add_edge G parent_name c else G) ps G) \<and>
   set (g_edges (fold (\<lambda>(parent_name, lag) G. if lag = 0 then G_add_edge G parent_name c else G) ps G))
     = set (g_edges G) \<union> set (map (\<lambda>pl. (fst pl, c)) (filter (\<lambda>pl. snd pl = 0) ps)) \<and>
   set (g_nodes (fold (\<lambda>(parent_name, lag) G. if lag = 0 then G_add_edge G parent_name c else G) ps G))
     = set (g_nodes G) \<union> fst ` set (map (\<lambda>pl. (fst pl, c)) (filter (\<lambda>pl. snd pl = 0) ps))
        \<union> snd ` set (map (\<lambda>pl. (fst pl, c)) (filter (\<lambda>pl. snd pl = 0) ps))"
proof (induction ps arbitrary: G)
  case Nil
  then show ?case by simp
next
  case (Cons a ps)
  obtain p lag where a: "a = (p, lag)" by (cases a)
  show ?case
  proof (cases "lag = 0")
    case True
    have "gwf (G_add_edge G p c)" using Cons.prems by (rule gwf_add_edge)
    from Cons.IH[OF this] show ?thesis using True a
      by (simp add: nodes_add_edge edges_add_edge) blast
  next
    case False
    from Cons.IH[OF Cons.prems] show ?thesis using False a by simp
  qed
qed

lemma fold_nodes:
  fixes step
  defines "step \<equiv> (\<lambda>node G.
                 fold (\<lambda>(parent_name, lag) G. if lag = 0 then G_add_edge G parent_name (name node) else G)
                      (parents node) G)"
    and "E \<equiv> (\<lambda>ns. concat (map (\<lambda>n. map (\<lambda>pl. (fst pl, name n)) (filter (\<lambda>pl. snd pl = 0) (parents n))) ns))"
  shows "gwf G \<Longrightarrow> gwf (fold step ns G) \<and>
     set (g_edges (fold step ns G)) = set (g_edges G) \<union> set (E ns) \<and>
     set (g_nodes (fold step ns G)) = set (g_nodes G) \<union> fst ` set (E ns) \<union> snd ` set (E ns)"
proof (induction ns arbitrary: G)
  case Nil
  then show ?case by (simp add: E_def)
next
  case (Cons n ns)
  let ?G1 = "step n G"
  have g1: "gwf ?G1" and e1: "set (g_edges ?G1) = set (g_edges G) \<union> set (E [n])"
    and n1: "set (g_nodes ?G1) = set (g_nodes G) \<union> fst ` set (E [n]) \<union> snd ` set (E [n])"
    using fold_parents[OF Cons.prems, of "name n" "parents n"] by (simp_all add: step_def E_def)
  have En: "set (E (n # ns)) = set (E [n]) \<union> set (E ns)" by (simp add: E_def)
  from Cons.IH[OF g1] show ?case
    unfolding En e1 n1 fold_simps by (simp only: image_Un Un_assoc) blast
qed

lemma build_graph_props:
  "gwf (build_graph dbn) \<and>
   set (g_edges (build_graph dbn)) = set (zero_lag_edges dbn) \<and>
   set (g_nodes (build_graph dbn)) = set (map fst (nodes dbn)) \<union> fst ` set (zero_lag_edges dbn)
        \<union> snd ` set (zero_lag_edges dbn)"
proof -
  let ?G0 = "fold (\<lambda>node_name G. G_add_node G node_name) (map fst (nodes dbn)) DiGraph_init"
  from fold_add_node[OF gwf_init, of "map fst (nodes dbn)"]
  have g0: "gwf ?G0" and n0: "set (g_nodes ?G0) = set (map fst (nodes dbn))" and e0: "g_edges ?G0 = []"
    by (simp_all add: DiGraph_init_def)
  from fold_nodes[OF g0, of "map snd (nodes dbn)"] show ?thesis
    unfolding build_graph_def Let_def zero_lag_edges_def n0 e0 by simp
qed

lemma dict_set_keys_set: "set (map fst (dict_set d k v)) = insert k (set (map fst d))"
  by (rule keys_dict_set)

lemma set_dict_set_subset: "set (dict_set d k v) \<subseteq> insert (k, v) (set d)"
  by (induction d k v rule: dict_set.induct) auto

lemma dbn_wf_add_node: "dbn_wf dbn \<Longrightarrow> dbn_wf (add_node dbn n)"
  unfolding dbn_wf_def add_node_def
  using set_dict_set_subset[of "nodes dbn" "name n" n]
  by (auto simp: distinct_dict_set)

lemma dbn_wf_foldl: "dbn_wf dbn \<Longrightarrow> dbn_wf (foldl add_node dbn ns)"
  by (induction ns arbitrary: dbn) (auto simp: dbn_wf_add_node)

lemma dbn_wf_build: "dbn_wf (build ns)"
  unfolding build_def by (rule dbn_wf_foldl) (simp add: dbn_wf_def DBN_init_def)

lemma lookup_all_present:
  "set ks \<subseteq> set (map fst d) \<Longrightarrow> lookup_all d ks = Inr (map (\<lambda>k. the (map_of d k)) ks)"
proof (induction ks)
  case Nil
  then show ?case by simp
next
  case (Cons k ks)
  then have "map_of d k \<noteq> None" by (simp add: map_of_eq_None_iff)
  then show ?case using Cons by auto
qed

text \<open>A node without its parent pairs of a lag other than 0.\<close>

definition strip_lagged :: "node \<Rightarrow> node" where
  "strip_lagged n =
     (case n of
        Node nm ps c \<Rightarrow> Node nm (filter (\<lambda>pl. snd pl = 0) ps) c
      | TemporalNode nm tf \<Rightarrow> TemporalNode nm tf)"

lemma name_strip_lagged: "name (strip_lagged n) = name n"
  by (cases n) (simp_all add: strip_lagged_def)

lemma parents_strip_lagged: "parents (strip_lagged n) = filter (\<lambda>pl. snd pl = 0) (parents n)"
  by (cases n) (simp_all add: strip_lagged_def)

lemma dict_set_map: "dict_set (map (\<lambda>kv. (fst kv, f (snd kv))) d) k (f v) = map (\<lambda>kv. (fst kv, f (snd kv))) (dict_set d k v)"
  by (induction d k v rule: dict_set.induct) auto

lemma nodes_foldl_strip:
  "nodes (foldl add_node d' (map strip_lagged ns)) =
     map (\<lambda>kv. (fst kv, strip_lagged (snd kv))) (nodes (foldl add_node d ns))"
  if "nodes d' = map (\<lambda>kv. (fst kv, strip_lagged (snd kv))) (nodes d)"
  using that
proof (induction ns arbitrary: d d')
  case Nil
  then show ?case by simp
next
  case (Cons n ns)
  have "nodes (add_node d' (strip_lagged n)) = map (\<lambda>kv. (fst kv, strip_lagged (snd kv))) (nodes (add_node d n))"
    using Cons.prems by (simp add: add_node_def name_strip_lagged dict_set_map)
  from Cons.IH[OF this] show ?case by simp
qed

lemma nodes_build_strip:
  "nodes (build (map strip_lagged ns)) = map (\<lambda>kv. (fst kv, strip_lagged (snd kv))) (nodes (build ns))"
  unfolding build_def by (rule nodes_foldl_strip) (simp add: DBN_init_def)

lemma fold_zero_lag_filter:
  "fold (\<lambda>(parent_name, lag) G. if lag = 0 then F parent_name G else G) (filter (\<lambda>pl. snd pl = 0) ps) G
   = fold (\<lambda>(parent_name, lag) G. if lag = (0::int) then F parent_name G else G) ps G"
  by (induction ps arbitrary: G) auto

lemma build_graph_strip: "build_graph (build (map strip_lagged ns)) = build_graph (build ns)"
proof -
  have "fold (\<lambda>node G. fold (\<lambda>(parent_name, lag) G. if lag = 0 then G_add_edge G parent_name (name node) else G)
                      (parents node) G) (map strip_lagged xs) G
      = fold (\<lambda>node G. fold (\<lambda>(parent_name, lag) G. if lag = 0 then G_add_edge G parent_name (name node) else G)
                      (parents node) G) xs G" for xs and G :: "string digraph"
  proof (induction xs arbitrary: G)
    case Nil
    show ?case by simp
  next
    case (Cons a xs)
    have "fold (\<lambda>(parent_name, lag) G. if lag = 0 then G_add_edge G parent_name (name (strip_lagged a)) else G)
            (parents (strip_lagged a)) G
        = fold (\<lambda>(parent_name, lag) G. if lag = 0 then G_add_edge G parent_name (name a) else G)
            (parents a) G"
      unfolding name_strip_lagged parents_strip_lagged
      by (rule fold_zero_lag_filter[where F="\<lambda>p G. G_add_edge G p (name a)"])
    then show ?case using Cons.IH by simp
  qed
  note H = this
  have k: "map fst (map (\<lambda>kv. (fst kv, strip_lagged (snd kv))) d) = map fst d" for d :: "(string \<times> node) list"
    by simp
  have v: "map snd (map (\<lambda>kv. (fst kv, strip_lagged (snd kv))) d) = map strip_lagged (map snd d)"
    for d :: "(string \<times> node) list"
    by simp
  show ?thesis
    unfolding build_graph_def nodes_build_strip Let_def k v by (rule H)
qed

lemma map_of_map_value: "map_of (map (\<lambda>kv. (fst kv, f (snd kv))) d) k = map_option f (map_of d k)"
  by (induction d) auto

lemma lookup_all_map:
  "lookup_all (map (\<lambda>kv. (fst kv, f (snd kv))) d) ks = map_sum id (map f) (lookup_all d ks)"
  by (induction ks) (auto simp: map_of_map_value split: option.splits sum.splits)

lemma get_topological_order_strip:
  "map_sum id (map name) (get_topological_order (build (map strip_lagged ns)))
   = map_sum id (map name) (get_topological_order (build ns))"
proof (cases "topological_sort (build_graph (build ns))")
  case (Inl e)
  then show ?thesis by (simp add: get_topological_order_def build_graph_strip)
next
  case (Inr L)
  have "map_sum id (map name) (map_sum id (map strip_lagged) (lookup_all (nodes (build ns)) L))
      = map_sum id (map name) (lookup_all (nodes (build ns)) L)"
    by (cases "lookup_all (nodes (build ns)) L") (simp_all add: comp_def name_strip_lagged)
  then show ?thesis using Inr
    by (simp add: get_topological_order_def build_graph_strip nodes_build_strip lookup_all_map)
qed

lemma get_topological_order_acyclic:
  assumes wf: "dbn_wf dbn" and cl: "zero_lag_closed dbn" and ac: "acyclic (set (zero_lag_edges dbn))"
  shows "\<exists>order. get_topological_order dbn = Inr order \<and>
           distinct (map name order) \<and> set order = set (map snd (nodes dbn)) \<and>
           length order = length (nodes dbn) \<and>
           (\<forall>e \<in> set (zero_lag_edges dbn).
               index_of (map name order) (fst e) < index_of (map name order) (snd e))"
proof -
  let ?G = "build_graph dbn" and ?d = "nodes dbn"
  have g: "gwf ?G" and E: "set (g_edges ?G) = set (zero_lag_edges dbn)"
    and V0: "set (g_nodes ?G) = set (map fst ?d) \<union> fst ` set (zero_lag_edges dbn) \<union> snd ` set (zero_lag_edges dbn)"
    using build_graph_props[of dbn] by simp_all
  have dk: "distinct (map fst ?d)" and nm: "\<And>k n. (k, n) \<in> set ?d \<Longrightarrow> name n = k"
    using wf unfolding dbn_wf_def by auto
  have a: "fst ` set (zero_lag_edges dbn) \<subseteq> set (map fst ?d)"
    using cl by (auto simp: zero_lag_closed_def list_all_iff)
  have b: "snd ` set (zero_lag_edges dbn) \<subseteq> set (map fst ?d)"
  proof
    fix c assume "c \<in> snd ` set (zero_lag_edges dbn)"
    then obtain kn where "kn \<in> set ?d" "c = name (snd kn)"
      by (auto simp: zero_lag_edges_def)
    then show "c \<in> set (map fst ?d)" using nm[of "fst kn" "snd kn"] by auto
  qed
  have V: "set (g_nodes ?G) = set (map fst ?d)"
    unfolding V0 using a b by (simp add: Un_absorb2)
  have ac': "acyclic (set (g_edges ?G))" using ac by (simp only: E)
  from topological_sort_acyclic[OF g ac'] obtain L where
    ts: "topological_sort ?G = Inr L" and dL: "distinct L" and sL0: "set L = set (g_nodes ?G)" and
    oL0: "\<forall>e \<in> set (g_edges ?G). index_of L (fst e) < index_of L (snd e)"
    by blast
  have sL: "set L = set (map fst ?d)" using sL0 by (simp only: V)
  have oL: "\<forall>e \<in> set (zero_lag_edges dbn). index_of L (fst e) < index_of L (snd e)"
    using oL0 by (simp only: E)
  define order where "order = map (\<lambda>k. the (map_of ?d k)) L"
  have la: "lookup_all ?d L = Inr order" unfolding order_def
    by (rule lookup_all_present) (simp add: sL)
  have res: "get_topological_order dbn = Inr order"
    by (simp add: get_topological_order_def ts la)
  have key: "name (the (map_of ?d k)) = k \<and> (k, the (map_of ?d k)) \<in> set ?d" if "k \<in> set L" for k
  proof -
    from that sL obtain n where "(k, n) \<in> set ?d" by auto
    then have "map_of ?d k = Some n" using dk by simp
    then show ?thesis using \<open>(k, n) \<in> set ?d\<close> nm by simp
  qed
  have names: "map name order = L"
    unfolding order_def using key by (simp add: map_idI)
  have "set order = snd ` set ?d"
  proof
    show "set order \<subseteq> snd ` set ?d" unfolding order_def using key by force
    show "snd ` set ?d \<subseteq> set order"
    proof
      fix n assume "n \<in> snd ` set ?d"
      then obtain k where kn: "(k, n) \<in> set ?d" by auto
      then have "map_of ?d k = Some n" using dk by simp
      moreover have "k \<in> set L" using kn sL by force
      ultimately show "n \<in> set order" unfolding order_def by force
    qed
  qed
  then have so: "set order = set (map snd ?d)" by simp
  have "length L = length (map fst ?d)"
    using dL dk sL by (metis distinct_card)
  then have len: "length order = length ?d" by (simp add: order_def)
  show ?thesis using res names dL so len oL by auto
qed

lemma get_topological_order_cyclic:
  assumes "\<not> acyclic (set (zero_lag_edges dbn))"
  shows "get_topological_order dbn = Inl ValueError_cycle_detected"
proof -
  have g: "gwf (build_graph dbn)" and E: "set (g_edges (build_graph dbn)) = set (zero_lag_edges dbn)"
    using build_graph_props[of dbn] by simp_all
  from topological_sort_cyclic[OF g] assms E
  have "topological_sort (build_graph dbn) = Inl NetworkXUnfeasible" by simp
  then show ?thesis by (simp add: get_topological_order_def)
qed

text \<open>
  Claim C1: for every network whose zero-lag subgraph is acyclic,
  \<^verbatim>\<open>get_topological_order\<close> returns every node of the network exactly once, each
  zero-lag parent before its child. It does not when a zero-lag parent is not a node of the
  network: the network of the one node \<open>X\<close> with the zero-lag parent \<open>Y\<close> has the one
  zero-lag edge from \<open>Y\<close> to \<open>X\<close> and no cycle, the sort returns both names, and the
  lookup of \<open>Y\<close> among the nodes fails.
\<close>

theorem get_topological_order_dangling_parent_counterexample:
  "zero_lag_edges (build [Node ''X'' [(''Y'', 0)] None]) = [(''Y'', ''X'')] \<and>
   acyclic (set (zero_lag_edges (build [Node ''X'' [(''Y'', 0)] None]))) \<and>
   get_topological_order (build [Node ''X'' [(''Y'', 0)] None]) = Inl (KeyError ''Y'')"
proof -
  have n: "nodes (build [Node ''X'' [(''Y'', 0)] None]) = [(''X'', Node ''X'' [(''Y'', 0)] None)]"
    by (simp add: build_def add_node_def DBN_init_def)
  have e: "zero_lag_edges (build [Node ''X'' [(''Y'', 0)] None]) = [(''Y'', ''X'')]"
    by (simp add: zero_lag_edges_def n)
  have a: "acyclic (set (zero_lag_edges (build [Node ''X'' [(''Y'', 0)] None])))"
    by (simp add: e acyclic_insert wf_acyclic)
  have g: "get_topological_order (build [Node ''X'' [(''Y'', 0)] None]) = Inl (KeyError ''Y'')"
    by (simp add: n get_topological_order_def topological_sort_def build_graph_def
        G_add_node_def G_add_edge_def DiGraph_init_def in_degree_def neighbors_def dict_del_def Let_def)
  show ?thesis using e a g by blast
qed

text \<open>
  Claim C1 as amended: for every network, built by \<^verbatim>\<open>add_node\<close> calls, whose zero-lag
  parents are all nodes of the network and whose zero-lag subgraph is acyclic,
  \<^verbatim>\<open>get_topological_order\<close> returns every node of the network exactly once, each
  zero-lag parent strictly before its child; when the zero-lag subgraph has a cycle it fails
  with the cycle error; and removing every edge with a lag other than 0 changes neither the
  outcome nor the order of the names.
\<close>

theorem get_topological_order_correct:
  "(zero_lag_closed (build ns) \<and> acyclic (set (zero_lag_edges (build ns))) \<longrightarrow>
      (\<exists>order. get_topological_order (build ns) = Inr order \<and>
          distinct (map name order) \<and> set order = set (map snd (nodes (build ns))) \<and>
          length order = length (nodes (build ns)) \<and>
          (\<forall>e \<in> set (zero_lag_edges (build ns)).
              index_of (map name order) (fst e) < index_of (map name order) (snd e)))) \<and>
   (\<not> acyclic (set (zero_lag_edges (build ns))) \<longrightarrow>
      get_topological_order (build ns) = Inl ValueError_cycle_detected) \<and>
   map_sum id (map name) (get_topological_order (build (map strip_lagged ns)))
     = map_sum id (map name) (get_topological_order (build ns))"
  using get_topological_order_acyclic[OF dbn_wf_build, of ns]
    get_topological_order_cyclic[of "build ns"] get_topological_order_strip[of ns]
  by blast

lemma example_acyclic_nodes: "nodes (build [Node ''B'' [(''A'', 0), (''B'', 1)] None, Node ''A'' [] None])
  = [(''B'', Node ''B'' [(''A'', 0), (''B'', 1)] None), (''A'', Node ''A'' [] None)]"
  by (simp add: build_def add_node_def DBN_init_def)

lemma example_cyclic_nodes: "nodes (build [Node ''B'' [(''A'', 0)] None, Node ''A'' [(''B'', 0)] None])
  = [(''B'', Node ''B'' [(''A'', 0)] None), (''A'', Node ''A'' [(''B'', 0)] None)]"
  by (simp add: build_def add_node_def DBN_init_def)

theorem get_topological_order_correct_witness:
  "zero_lag_closed (build [Node ''B'' [(''A'', 0), (''B'', 1)] None, Node ''A'' [] None]) \<and>
   acyclic (set (zero_lag_edges (build [Node ''B'' [(''A'', 0), (''B'', 1)] None, Node ''A'' [] None]))) \<and>
   (\<exists>order. get_topological_order (build [Node ''B'' [(''A'', 0), (''B'', 1)] None, Node ''A'' [] None]) = Inr order \<and>
       index_of (map name order) ''A'' < index_of (map name order) ''B'') \<and>
   \<not> acyclic (set (zero_lag_edges (build [Node ''B'' [(''A'', 0)] None, Node ''A'' [(''B'', 0)] None]))) \<and>
   get_topological_order (build [Node ''B'' [(''A'', 0)] None, Node ''A'' [(''B'', 0)] None])
     = Inl ValueError_cycle_detected"
proof -
  let ?w = "[Node ''B'' [(''A'', 0), (''B'', 1)] None, Node ''A'' [] None]"
  let ?c = "[Node ''B'' [(''A'', 0)] None, Node ''A'' [(''B'', 0)] None]"
  have e1: "zero_lag_edges (build ?w) = [(''A'', ''B'')]"
    by (simp add: zero_lag_edges_def example_acyclic_nodes)
  have e2: "zero_lag_edges (build ?c) = [(''A'', ''B''), (''B'', ''A'')]"
    by (simp add: zero_lag_edges_def example_cyclic_nodes)
  have h1: "zero_lag_closed (build ?w)"
    by (simp add: zero_lag_closed_def e1 example_acyclic_nodes)
  have h2: "acyclic (set (zero_lag_edges (build ?w)))"
    by (simp add: e1 acyclic_insert wf_acyclic)
  have "(''A'', ''A'') \<in> (set (zero_lag_edges (build ?c)))\<^sup>+"
    unfolding e2 by (rule trancl_trans[of _ "''B''"]) auto
  then have h3: "\<not> acyclic (set (zero_lag_edges (build ?c)))"
    unfolding acyclic_def by blast
  from get_topological_order_correct[of ?w] h1 h2 obtain order where
    o: "get_topological_order (build ?w) = Inr order"
       "\<forall>e \<in> set (zero_lag_edges (build ?w)). index_of (map name order) (fst e) < index_of (map name order) (snd e)"
    by blast
  from o(2) have "index_of (map name order) ''A'' < index_of (map name order) ''B''"
    unfolding e1 by simp
  moreover from get_topological_order_correct[of ?c] h3
  have "get_topological_order (build ?c) = Inl ValueError_cycle_detected" by blast
  ultimately show ?thesis using h1 h2 h3 o(1) by blast
qed

text \<open>A zero-lag parent that is not a node of the network: the sort succeeds on the graph,
  which has the parent as a vertex, and the lookup of its name fails.\<close>

lemma lookup_all_missing:
  "\<exists>k \<in> set ks. k \<notin> set (map fst d) \<Longrightarrow>
   \<exists>k. lookup_all d ks = Inl (KeyError k) \<and> k \<notin> set (map fst d)"
proof (induction ks)
  case Nil
  then show ?case by simp
next
  case (Cons k ks)
  show ?case
  proof (cases "map_of d k")
    case None
    then have "k \<notin> set (map fst d)" by (simp add: map_of_eq_None_iff)
    then show ?thesis using None by simp
  next
    case (Some n)
    then have "k \<in> set (map fst d)" by (metis map_of_eq_None_iff option.distinct(1) set_map)
    then have "\<exists>k \<in> set ks. k \<notin> set (map fst d)" using Cons.prems by auto
    from Cons.IH[OF this] obtain k' where "lookup_all d ks = Inl (KeyError k')" "k' \<notin> set (map fst d)"
      by blast
    then show ?thesis using Some by simp
  qed
qed

lemma get_topological_order_dangling_parent:
  assumes "\<not> zero_lag_closed dbn" "acyclic (set (zero_lag_edges dbn))"
  shows "\<exists>p. get_topological_order dbn = Inl (KeyError p) \<and> p \<notin> set (map fst (nodes dbn))"
proof -
  let ?G = "build_graph dbn"
  have g: "gwf ?G" and E: "set (g_edges ?G) = set (zero_lag_edges dbn)"
    and V0: "set (g_nodes ?G) = set (map fst (nodes dbn)) \<union> fst ` set (zero_lag_edges dbn) \<union> snd ` set (zero_lag_edges dbn)"
    using build_graph_props[of dbn] by simp_all
  have ac: "acyclic (set (g_edges ?G))" using assms(2) by (simp only: E)
  from topological_sort_acyclic[OF g ac] obtain L where
    ts: "topological_sort ?G = Inr L" and sL: "set L = set (g_nodes ?G)" by blast
  from assms(1) obtain e where e: "e \<in> set (zero_lag_edges dbn)" "fst e \<notin> set (map fst (nodes dbn))"
    by (auto simp: zero_lag_closed_def list_all_iff)
  have "fst e \<in> set L" unfolding sL V0 using e(1) by blast
  then have "\<exists>k \<in> set L. k \<notin> set (map fst (nodes dbn))" using e(2) by blast
  from lookup_all_missing[OF this] show ?thesis
    by (simp add: get_topological_order_def ts)
qed

section \<open>The maximum lag, the structural validation and the linear Gaussian CPD\<close>

text \<open>The maximum lag as the specification words it: the largest lag of a parent pair of a
  node present in the network, and 0 when there is no pair.\<close>

definition all_lags :: "DBN \<Rightarrow> int list" where
  "all_lags dbn = concat (map (\<lambda>n. map snd (parents n)) (map snd (nodes dbn)))"

definition spec_max_lag :: "DBN \<Rightarrow> int" where
  "spec_max_lag dbn = (case all_lags dbn of [] \<Rightarrow> 0 | l # ls \<Rightarrow> fold max ls l)"

lemma raise_max_lag_eq: "raise_max_lag ps m = fold max (map snd ps) m"
  unfolding raise_max_lag_def
  by (induction ps arbitrary: m) (auto simp: max_def)

lemma max_lag_foldl:
  "max_lag (foldl add_node dbn ns) = fold max (concat (map (\<lambda>n. map snd (parents n)) ns)) (max_lag dbn)"
  by (induction ns arbitrary: dbn) (simp_all add: add_node_def raise_max_lag_eq)



lemma dict_set_fresh: "k \<notin> set (map fst d) \<Longrightarrow> dict_set d k v = d @ [(k, v)]"
  by (induction d k v rule: dict_set.induct) auto

lemma nodes_foldl_distinct:
  "distinct (map fst (nodes dbn) @ map name ns) \<Longrightarrow>
   nodes (foldl add_node dbn ns) = nodes dbn @ map (\<lambda>n. (name n, n)) ns"
proof (induction ns arbitrary: dbn)
  case Nil
  show ?case by simp
next
  case (Cons n ns)
  have fresh: "name n \<notin> set (map fst (nodes dbn))" using Cons.prems by auto
  have n1: "nodes (add_node dbn n) = nodes dbn @ [(name n, n)]"
    by (simp add: add_node_def dict_set_fresh[OF fresh])
  have "distinct (map fst (nodes (add_node dbn n)) @ map name ns)"
    using Cons.prems by (simp add: n1)
  from Cons.IH[OF this] show ?case by (simp add: n1)
qed

lemma fold_max_0_nonneg:
  "\<forall>x \<in> set xs. 0 \<le> x \<Longrightarrow> fold max xs (0::int) = (case xs of [] \<Rightarrow> 0 | l # ls \<Rightarrow> fold max ls l)"
  by (cases xs) (auto simp: max_def)

text \<open>Without a reused name and with lags that are not negative, the running maximum is the
  maximum over the nodes present.\<close>

lemma max_lag_build_distinct:
  assumes "distinct (map name ns)" "\<forall>n \<in> set ns. \<forall>pl \<in> set (parents n). 0 \<le> snd pl"
  shows "max_lag (build ns) = spec_max_lag (build ns)"
proof -
  have n: "nodes (build ns) = map (\<lambda>n. (name n, n)) ns"
    unfolding build_def using nodes_foldl_distinct[of DBN_init ns] assms(1)
    by (simp add: DBN_init_def)
  have al: "all_lags (build ns) = concat (map (\<lambda>n. map snd (parents n)) ns)"
    by (simp add: all_lags_def n comp_def)
  have nn: "\<forall>x \<in> set (all_lags (build ns)). 0 \<le> x" unfolding al using assms(2) by auto
  have "max_lag (build ns) = fold max (concat (map (\<lambda>n. map snd (parents n)) ns)) 0"
    unfolding build_def max_lag_foldl by (simp add: DBN_init_def)
  then have "max_lag (build ns) = fold max (all_lags (build ns)) 0" by (simp only: al)
  then show ?thesis unfolding spec_max_lag_def using fold_max_0_nonneg[OF nn] by simp
qed

text \<open>
  Claim C6: after every sequence of \<^verbatim>\<open>add_node\<close> calls, also one that reuses a name,
  \<open>max_lag\<close> is the maximum lag over the parent pairs of the nodes present, and 0 when there
  is none. The code only ever raises \<open>max_lag\<close>: adding a node with a lag-5 parent and then
  a node of the same name without parents leaves one node without parents in the network and
  \<open>max_lag = 5\<close>, where the maximum over the nodes present is 0.
\<close>

theorem add_node_overwrite_keeps_stale_max_lag:
  "nodes (build [Node ''A'' [(''B'', 5)] None, Node ''A'' [] None]) = [(''A'', Node ''A'' [] None)] \<and>
   max_lag (build [Node ''A'' [(''B'', 5)] None, Node ''A'' [] None]) = 5 \<and>
   spec_max_lag (build [Node ''A'' [(''B'', 5)] None, Node ''A'' [] None]) = 0"
  by (simp add: build_def add_node_def DBN_init_def raise_max_lag_def spec_max_lag_def all_lags_def)

text \<open>
  Claim C7: \<^verbatim>\<open>validate_structure\<close> checks that every parent name resolves to a node of
  the network and that the zero-lag subgraph is acyclic, and fails otherwise. The code returns
  without a check: it accepts a network whose only node names a parent that is not there, and
  a network whose two nodes are each other's zero-lag parents (on which the ordering fails
  with the cycle error).
\<close>

theorem validate_structure_accepts_invalid_networks:
  "validate_structure (build [Node ''X'' [(''Y'', 0)] None]) = Inr () \<and>
   get_node (build [Node ''X'' [(''Y'', 0)] None]) ''Y'' = None \<and>
   validate_structure (build [Node ''B'' [(''A'', 0)] None, Node ''A'' [(''B'', 0)] None]) = Inr () \<and>
   get_topological_order (build [Node ''B'' [(''A'', 0)] None, Node ''A'' [(''B'', 0)] None])
     = Inl ValueError_cycle_detected"
proof -
  have "\<not> acyclic (set (zero_lag_edges (build [Node ''B'' [(''A'', 0)] None, Node ''A'' [(''B'', 0)] None])))"
  proof -
    have e2: "zero_lag_edges (build [Node ''B'' [(''A'', 0)] None, Node ''A'' [(''B'', 0)] None])
        = [(''A'', ''B''), (''B'', ''A'')]"
      by (simp add: zero_lag_edges_def example_cyclic_nodes)
    have "(''A'', ''A'') \<in> (set [(''A'', ''B''), (''B'', ''A'')])\<^sup>+"
      by (rule trancl_trans[of _ "''B''"]) auto
    then show ?thesis unfolding e2 acyclic_def by blast
  qed
  from get_topological_order_cyclic[OF this] show ?thesis
    by (simp add: validate_structure_def get_node_def build_def add_node_def DBN_init_def)
qed

text \<open>The linear Gaussian CPD on floats.\<close>

lemma rounding_integer_rounding: "rounding integer_rounding"
  by (auto simp: rounding_def integer_rounding_def)

lemma float_add_NaN_right [simp]: "float_add rnd a NaN = NaN"
  by (cases a) simp_all

lemma float_mul_NaN_right [simp]: "float_mul rnd a NaN = NaN"
  by (cases a) simp_all

lemma fold_float_add_NaN: "fold (\<lambda>x acc. float_add rnd acc x) xs NaN = NaN"
  by (induction xs) simp_all

lemma fold_float_add_has_NaN:
  "NaN \<in> set xs \<Longrightarrow> fold (\<lambda>x acc. float_add rnd acc x) xs a = NaN"
proof (induction xs arbitrary: a)
  case Nil
  then show ?case by simp
next
  case (Cons x xs)
  show ?case
  proof (cases "x = NaN")
    case True
    then show ?thesis by (simp add: fold_float_add_NaN)
  next
    case False
    then have "NaN \<in> set xs" using Cons.prems by auto
    then show ?thesis using Cons.IH by simp
  qed
qed

lemma float_mul_zero_not_finite: "\<not> is_finite v \<Longrightarrow> float_mul rnd (Fin 0) v = NaN"
  by (cases v) simp_all

lemma float_mul_zero_finite: "rnd 0 = Fin 0 \<Longrightarrow> is_finite v \<Longrightarrow> float_mul rnd (Fin 0) v = Fin 0"
  by (cases v) simp_all

lemma rounded_float_add:
  assumes "rounding rnd"
  shows "rounded rnd (float_add rnd a b)"
proof -
  have r: "\<And>x. rounded rnd (rnd x)" using assms unfolding rounding_def rounded_def by metis
  show ?thesis
    by (cases a; cases b) (simp_all add: r, simp_all add: rounded_def)
qed

lemma float_add_zero_rounded:
  "rounded rnd a \<Longrightarrow> float_add rnd a (Fin 0) = a"
  by (cases a) (simp_all add: rounded_def)

lemma rounded_fold:
  assumes "rounding rnd" "xs \<noteq> []"
  shows "rounded rnd (fold (\<lambda>x acc. float_add rnd acc x) xs a)"
proof -
  obtain ys y where xs: "xs = ys @ [y]" using assms(2) by (metis rev_exhaust)
  show ?thesis unfolding xs by (simp add: rounded_float_add[OF assms(1)])
qed

lemma py_sum_snoc_zero:
  assumes "rounding rnd" "xs \<noteq> []"
  shows "py_sum rnd (xs @ [Fin 0]) = py_sum rnd xs"
  unfolding py_sum_def using rounded_fold[OF assms, of "Fin 0"]
  by (simp add: float_add_zero_rounded)

lemma py_sum_has_NaN: "NaN \<in> set xs \<Longrightarrow> py_sum rnd xs = NaN"
  unfolding py_sum_def by (rule fold_float_add_has_NaN)

lemma fold_float_add_zeros:
  "rnd s = Fin s \<Longrightarrow> \<forall>x \<in> set xs. x = Fin 0 \<Longrightarrow> fold (\<lambda>x acc. float_add rnd acc x) xs (Fin s) = Fin s"
  by (induction xs) simp_all

lemma get_weight_float_dict_del:
  "map_of w key = Some (Fin 0) \<Longrightarrow> get_weight_float (dict_del w key) k = get_weight_float w k"
  by (simp add: get_weight_float_def map_of_dict_del)

lemma evaluate_float_intercept:
  assumes r: "rounding rnd" and mu: "rnd mu = Fin mu"
    and fin: "list_all (\<lambda>kv. is_finite (snd kv)) parent_values"
  shows "evaluate_float rnd
           \<lparr>parent_weights_float = [], noise_std_float = Fin 0, intrinsic_mean_float = Fin mu\<rparr> z parent_values
         = Inr (Fin mu)"
proof -
  have z0: "rnd 0 = Fin 0" using r by (simp add: rounding_def)
  have prods: "\<forall>x \<in> set (map (\<lambda>(key, val). float_mul rnd (get_weight_float [] key) val) parent_values). x = Fin 0"
    using fin by (auto simp: list_all_iff get_weight_float_def float_mul_zero_finite[where rnd=rnd, OF z0])
  have "linear_sum_float rnd
           \<lparr>parent_weights_float = [], noise_std_float = Fin 0, intrinsic_mean_float = Fin mu\<rparr> parent_values
        = Fin mu"
    unfolding linear_sum_float_def py_sum_def
    using fold_float_add_zeros[where rnd=rnd and s=mu, OF mu prods] by (simp add: mu)
  then show ?thesis by (simp add: evaluate_float_def normal_float_def z0 mu)
qed

lemma evaluate_float_not_finite:
  assumes nf: "\<not> list_all (\<lambda>kv. is_finite (snd kv)) parent_values"
  shows "evaluate_float rnd
           \<lparr>parent_weights_float = [], noise_std_float = Fin 0, intrinsic_mean_float = Fin mu\<rparr> z parent_values
         = Inr NaN"
proof -
  obtain kv where kv: "kv \<in> set parent_values" "\<not> is_finite (snd kv)"
    using nf by (auto simp: list_all_iff)
  have "float_mul rnd (get_weight_float [] (fst kv)) (snd kv) = NaN"
    using kv(2) by (simp add: get_weight_float_def float_mul_zero_not_finite)
  then have "NaN \<in> set (map (\<lambda>(key, val). float_mul rnd (get_weight_float [] key) val) parent_values)"
    using kv(1) by (force simp: image_iff split_beta)
  then have "linear_sum_float rnd
           \<lparr>parent_weights_float = [], noise_std_float = Fin 0, intrinsic_mean_float = Fin mu\<rparr> parent_values
        = NaN"
    unfolding linear_sum_float_def by (intro py_sum_has_NaN) simp
  then show ?thesis by (simp add: evaluate_float_def normal_float_def)
qed

lemma evaluate_float_absent_key:
  assumes r: "rounding rnd" and k: "map_of w key = None"
  shows "evaluate_float rnd
           \<lparr>parent_weights_float = w, noise_std_float = s, intrinsic_mean_float = m\<rparr> z (parent_values @ [(key, Fin x)])
         = evaluate_float rnd
           \<lparr>parent_weights_float = w, noise_std_float = s, intrinsic_mean_float = m\<rparr> z parent_values"
proof -
  have z0: "rnd 0 = Fin 0" using r by (simp add: rounding_def)
  have "float_mul rnd (get_weight_float w key) (Fin x) = Fin 0"
    using k by (simp add: get_weight_float_def z0)
  then show ?thesis
    unfolding evaluate_float_def linear_sum_float_def
    using py_sum_snoc_zero[OF r, of "[m] @ map (\<lambda>(key, val). float_mul rnd (get_weight_float w key) val) parent_values"]
    by simp
qed

lemma evaluate_float_zero_weight:
  assumes "map_of w key = Some (Fin 0)"
  shows "evaluate_float rnd
           \<lparr>parent_weights_float = w, noise_std_float = s, intrinsic_mean_float = m\<rparr> z parent_values
         = evaluate_float rnd
           \<lparr>parent_weights_float = dict_del w key, noise_std_float = s, intrinsic_mean_float = m\<rparr> z parent_values"
proof -
  have "(\<lambda>(k, val). float_mul rnd (get_weight_float (dict_del w key) k) val)
      = (\<lambda>(k, val). float_mul rnd (get_weight_float w k) val)"
    using assms by (simp add: get_weight_float_dict_del fun_eq_iff)
  then show ?thesis by (simp add: evaluate_float_def linear_sum_float_def)
qed

text \<open>With exact arithmetic on finite numbers the float evaluator is the idealised one.\<close>

lemma get_weight_float_exact:
  "get_weight_float (map (\<lambda>(k, w). (k, Fin w)) ws) key = Fin (get_weight ws key)"
  by (induction ws) (auto simp: get_weight_float_def get_weight_def)

lemma fold_float_add_exact:
  "fold (\<lambda>x acc. float_add Fin acc x) (map (\<lambda>x. Fin (f x)) xs) (Fin a) = Fin (a + sum_list (map f xs))"
  by (induction xs arbitrary: a) (simp_all add: algebra_simps)

lemma evaluate_float_exact:
  "evaluate_float Fin (float_of_cpd c) z (map (\<lambda>(k, v). (k, Fin v)) parent_values)
   = (case evaluate c z parent_values of Inl e \<Rightarrow> Inl e | Inr y \<Rightarrow> Inr (Fin y))"
proof -
  have m: "map (\<lambda>(key, val). float_mul Fin (get_weight_float (map (\<lambda>(k, w). (k, Fin w)) (parent_weights c)) key) val)
          (map (\<lambda>(k, v). (k, Fin v)) parent_values)
        = map (\<lambda>kv. Fin (case kv of (key, val) \<Rightarrow> get_weight (parent_weights c) key * val)) parent_values"
    by (induction parent_values) (auto simp: get_weight_float_exact)
  have "linear_sum_float Fin (float_of_cpd c) (map (\<lambda>(k, v). (k, Fin v)) parent_values)
      = fold (\<lambda>x acc. float_add Fin acc x)
          (map (\<lambda>(key, val). float_mul Fin (get_weight_float (map (\<lambda>(k, w). (k, Fin w)) (parent_weights c)) key) val)
            (map (\<lambda>(k, v). (k, Fin v)) parent_values))
          (Fin (intrinsic_mean c))"
    by (simp add: linear_sum_float_def py_sum_def float_of_cpd_def del: map_map)
  also have "\<dots> = Fin (linear_sum c parent_values)"
    unfolding m fold_float_add_exact by (simp add: linear_sum_def)
  finally show ?thesis
    by (simp add: evaluate_float_def normal_float_def evaluate_def normal_def float_of_cpd_def)
qed

text \<open>
  Claim C4: with an empty weight mapping and noise standard deviation 0, \<^verbatim>\<open>evaluate\<close>
  returns exactly the intrinsic mean for every input mapping. It does not on an input with a
  value that is not finite: the weight of an absent key is \<open>0.0\<close>, the product
  \<open>0.0 * inf\<close> is nan, and nan is what the sum and the draw return, where the intrinsic
  mean is 5.
\<close>

theorem evaluate_float_infinite_value_counterexample:
  "evaluate_float integer_rounding
     \<lparr>parent_weights_float = [], noise_std_float = Fin 0, intrinsic_mean_float = Fin 5\<rparr> 0 [((''X'', 1), PInf)]
   = Inr NaN \<and>
   Inr NaN \<noteq> (Inr (Fin 5) :: error + pyfloat)"
  by (simp add: evaluate_float_def normal_float_def linear_sum_float_def py_sum_def get_weight_float_def
      integer_rounding_def)

text \<open>
  Claim C4 as amended: with an empty weight mapping and noise standard deviation 0,
  \<^verbatim>\<open>evaluate\<close> returns the intrinsic mean for every input mapping whose values are all
  finite, and nan for every input mapping with a value that is not. A key of the input that the
  weight mapping does not have raises nothing and, its value finite, contributes nothing; a
  weight mapping that gives a key the weight 0 behaves as the mapping without that key on
  every input.
\<close>

theorem evaluate_float_intercept_and_zero_weights:
  "(rounding rnd \<and> rnd mu = Fin mu \<and> list_all (\<lambda>kv. is_finite (snd kv)) parent_values \<longrightarrow>
      evaluate_float rnd
        \<lparr>parent_weights_float = [], noise_std_float = Fin 0, intrinsic_mean_float = Fin mu\<rparr> z parent_values
      = Inr (Fin mu)) \<and>
   (\<not> list_all (\<lambda>kv. is_finite (snd kv)) parent_values \<longrightarrow>
      evaluate_float rnd
        \<lparr>parent_weights_float = [], noise_std_float = Fin 0, intrinsic_mean_float = Fin mu\<rparr> z parent_values
      = Inr NaN) \<and>
   (rounding rnd \<and> map_of w key = None \<longrightarrow>
      evaluate_float rnd
        \<lparr>parent_weights_float = w, noise_std_float = s, intrinsic_mean_float = m\<rparr> z (parent_values @ [(key, Fin x)])
      = evaluate_float rnd
        \<lparr>parent_weights_float = w, noise_std_float = s, intrinsic_mean_float = m\<rparr> z parent_values) \<and>
   (map_of w key = Some (Fin 0) \<longrightarrow>
      evaluate_float rnd
        \<lparr>parent_weights_float = w, noise_std_float = s, intrinsic_mean_float = m\<rparr> z parent_values
      = evaluate_float rnd
        \<lparr>parent_weights_float = dict_del w key, noise_std_float = s, intrinsic_mean_float = m\<rparr> z parent_values)"
proof (intro conjI impI)
  assume "rounding rnd \<and> rnd mu = Fin mu \<and> list_all (\<lambda>kv. is_finite (snd kv)) parent_values"
  then show "evaluate_float rnd
        \<lparr>parent_weights_float = [], noise_std_float = Fin 0, intrinsic_mean_float = Fin mu\<rparr> z parent_values
      = Inr (Fin mu)"
    by (simp add: evaluate_float_intercept)
next
  assume "\<not> list_all (\<lambda>kv. is_finite (snd kv)) parent_values"
  then show "evaluate_float rnd
        \<lparr>parent_weights_float = [], noise_std_float = Fin 0, intrinsic_mean_float = Fin mu\<rparr> z parent_values
      = Inr NaN"
    by (rule evaluate_float_not_finite)
next
  assume "rounding rnd \<and> map_of w key = None"
  then show "evaluate_float rnd
        \<lparr>parent_weights_float = w, noise_std_float = s, intrinsic_mean_float = m\<rparr> z (parent_values @ [(key, Fin x)])
      = evaluate_float rnd
        \<lparr>parent_weights_float = w, noise_std_float = s, intrinsic_mean_float = m\<rparr> z parent_values"
    by (simp add: evaluate_float_absent_key)
next
  assume "map_of w key = Some (Fin 0)"
  then show "evaluate_float rnd
        \<lparr>parent_weights_float = w, noise_std_float = s, intrinsic_mean_float = m\<rparr> z parent_values
      = evaluate_float rnd
        \<lparr>parent_weights_float = dict_del w key, noise_std_float = s, intrinsic_mean_float = m\<rparr> z parent_values"
    by (rule evaluate_float_zero_weight)
qed

theorem evaluate_float_intercept_and_zero_weights_witness:
  "rounding integer_rounding \<and> integer_rounding 5 = Fin 5 \<and>
   list_all (\<lambda>kv. is_finite (snd kv)) [((''X'', 1 :: int), Fin 10)] \<and>
   evaluate_float integer_rounding
     \<lparr>parent_weights_float = [], noise_std_float = Fin 0, intrinsic_mean_float = Fin 5\<rparr> 3 [((''X'', 1), Fin 10)]
     = Inr (Fin 5) \<and>
   \<not> list_all (\<lambda>kv. is_finite (snd kv)) [((''X'', 1 :: int), Fin 10), ((''Y'', 0), NaN)] \<and>
   evaluate_float integer_rounding
     \<lparr>parent_weights_float = [], noise_std_float = Fin 0, intrinsic_mean_float = Fin 5\<rparr> 3
       [((''X'', 1), Fin 10), ((''Y'', 0), NaN)]
     = Inr NaN \<and>
   map_of [((''X'', 1), Fin 2)] (''Y'', 0 :: int) = None \<and>
   evaluate_float integer_rounding
     \<lparr>parent_weights_float = [((''X'', 1), Fin 2)], noise_std_float = Fin 0, intrinsic_mean_float = Fin 1\<rparr> 3
       ([((''X'', 1), Fin 10)] @ [((''Y'', 0), Fin 7)])
     = Inr (Fin 21) \<and>
   map_of [((''X'', 1), Fin 2), ((''Y'', 0), Fin 0)] (''Y'', 0 :: int) = Some (Fin 0) \<and>
   evaluate_float integer_rounding
     \<lparr>parent_weights_float = dict_del [((''X'', 1), Fin 2), ((''Y'', 0), Fin 0)] (''Y'', 0),
      noise_std_float = Fin 0, intrinsic_mean_float = Fin 1\<rparr> 3 [((''X'', 1), Fin 10), ((''Y'', 0), Fin 7)]
     = Inr (Fin 21)"
proof -
  note r = rounding_integer_rounding
  have i5: "integer_rounding 5 = Fin 5" by (simp add: integer_rounding_def)
  have f1: "list_all (\<lambda>kv. is_finite (snd kv)) [((''X'', 1 :: int), Fin 10)]" by simp
  have f2: "\<not> list_all (\<lambda>kv. is_finite (snd kv)) [((''X'', 1 :: int), Fin 10), ((''Y'', 0), NaN)]" by simp
  have a: "map_of [((''X'', 1), Fin 2)] (''Y'', 0 :: int) = None" by simp
  have b: "map_of [((''X'', 1), Fin 2), ((''Y'', 0), Fin 0)] (''Y'', 0 :: int) = Some (Fin 0)" by simp
  have c: "evaluate_float integer_rounding
     \<lparr>parent_weights_float = [((''X'', 1), Fin 2)], noise_std_float = Fin 0, intrinsic_mean_float = Fin 1\<rparr> 3
       [((''X'', 1), Fin 10)] = Inr (Fin 21)"
    by (simp add: evaluate_float_def normal_float_def linear_sum_float_def py_sum_def get_weight_float_def
        integer_rounding_def)
  have d: "evaluate_float integer_rounding
     \<lparr>parent_weights_float = [((''X'', 1), Fin 2), ((''Y'', 0), Fin 0)], noise_std_float = Fin 0,
      intrinsic_mean_float = Fin 1\<rparr> 3 [((''X'', 1), Fin 10), ((''Y'', 0), Fin 7)] = Inr (Fin 21)"
    by (simp add: evaluate_float_def normal_float_def linear_sum_float_def py_sum_def get_weight_float_def
        integer_rounding_def)
  note t1 = evaluate_float_intercept_and_zero_weights[of integer_rounding 5 "[((''X'', 1), Fin 10)]" 3
      "[((''X'', 1), Fin 2)]" "(''Y'', 0)" "Fin 0" "Fin 1" 7]
  note t2 = evaluate_float_intercept_and_zero_weights[of integer_rounding 5
      "[((''X'', 1), Fin 10), ((''Y'', 0), NaN)]" 3
      "[((''X'', 1), Fin 2), ((''Y'', 0), Fin 0)]" "(''Y'', 0)" "Fin 0" "Fin 1" 7]
  note t3 = evaluate_float_intercept_and_zero_weights[of integer_rounding 5
      "[((''X'', 1), Fin 10), ((''Y'', 0), Fin 7)]" 3
      "[((''X'', 1), Fin 2), ((''Y'', 0), Fin 0)]" "(''Y'', 0)" "Fin 0" "Fin 1" 7]
  have c1: "evaluate_float integer_rounding
     \<lparr>parent_weights_float = [], noise_std_float = Fin 0, intrinsic_mean_float = Fin 5\<rparr> 3 [((''X'', 1), Fin 10)]
     = Inr (Fin 5)"
    using t1 r i5 f1 by blast
  have c2: "evaluate_float integer_rounding
     \<lparr>parent_weights_float = [], noise_std_float = Fin 0, intrinsic_mean_float = Fin 5\<rparr> 3
       [((''X'', 1), Fin 10), ((''Y'', 0), NaN)] = Inr NaN"
    using t2 f2 by blast
  have c3: "evaluate_float integer_rounding
     \<lparr>parent_weights_float = [((''X'', 1), Fin 2)], noise_std_float = Fin 0, intrinsic_mean_float = Fin 1\<rparr> 3
       ([((''X'', 1), Fin 10)] @ [((''Y'', 0), Fin 7)])
     = Inr (Fin 21)"
    using t1 r a c by simp
  have c4: "evaluate_float integer_rounding
     \<lparr>parent_weights_float = dict_del [((''X'', 1), Fin 2), ((''Y'', 0), Fin 0)] (''Y'', 0),
      noise_std_float = Fin 0, intrinsic_mean_float = Fin 1\<rparr> 3 [((''X'', 1), Fin 10), ((''Y'', 0), Fin 7)]
     = Inr (Fin 21)"
    using t3 b d by simp
  show ?thesis using r i5 f1 f2 a b c1 c2 c3 c4 by blast
qed

text \<open>
  Claim C9: constructing a \<^verbatim>\<open>LinearGaussianCPD\<close> with a negative noise standard
  deviation fails at construction. The constructor has no check: at the standard deviation
  \<open>-1\<close> it returns the object.
\<close>

theorem LinearGaussianCPD_init_negative_std_counterexample:
  "\<not> (\<exists>e. LinearGaussianCPD_init [] 0 (- 1) = Inl e)"
  by (simp add: LinearGaussianCPD_init_def)

text \<open>
  Claim C9 as amended: construction never fails and stores the noise standard deviation as
  given; \<^verbatim>\<open>evaluate\<close> returns a value whenever the stored standard deviation is not
  negative, and with a negative one it is \<^verbatim>\<open>evaluate\<close> that fails, in the normal draw.
\<close>

theorem LinearGaussianCPD_init_never_fails:
  "LinearGaussianCPD_init pw im ns = Inr \<lparr>parent_weights = pw, noise_std = ns, intrinsic_mean = im\<rparr> \<and>
   (0 \<le> ns \<longrightarrow>
      evaluate \<lparr>parent_weights = pw, noise_std = ns, intrinsic_mean = im\<rparr> z parent_values
        = Inr (linear_sum \<lparr>parent_weights = pw, noise_std = ns, intrinsic_mean = im\<rparr> parent_values + ns * z)) \<and>
   (ns < 0 \<longrightarrow>
      evaluate \<lparr>parent_weights = pw, noise_std = ns, intrinsic_mean = im\<rparr> z parent_values
        = Inl ValueError_scale_negative)"
  by (simp add: LinearGaussianCPD_init_def evaluate_def normal_def)

theorem LinearGaussianCPD_init_never_fails_witness:
  "LinearGaussianCPD_init [] 5 (1/2) = Inr \<lparr>parent_weights = [], noise_std = 1/2, intrinsic_mean = 5\<rparr> \<and>
   (0::real) \<le> 1/2 \<and>
   evaluate \<lparr>parent_weights = [], noise_std = 1/2, intrinsic_mean = 5\<rparr> 2 [] = Inr 6 \<and>
   (- 1 :: real) < 0 \<and>
   evaluate \<lparr>parent_weights = [], noise_std = - 1, intrinsic_mean = 5\<rparr> 2 [] = Inl ValueError_scale_negative"
  using LinearGaussianCPD_init_never_fails[of "[]" 5 "1/2" 2 "[]"]
    LinearGaussianCPD_init_never_fails[of "[]" 5 "- 1" 2 "[]"]
  by (simp add: linear_sum_def)

section \<open>Example networks\<close>

text \<open>
  An environment without calendar axis, with insertion order as the iteration order of a set
  and with every draw 0; the scenario of the specification (a root \<open>A\<close> with intercept 5,
  and \<open>B\<close> with the lag-1 parent \<open>A\<close> of weight 0.8 and intercept 1, both without
  noise) and its call with three steps and initial values.
\<close>

definition quiet_environment :: environment where
  "quiet_environment = \<lparr>pd_to_datetime = (\<lambda>s f. Inl ''unused''), pd_date_range = (\<lambda>s n f. Inl ''unused''),
          set_order = (\<lambda>xs. xs), draw = (\<lambda>t nm. 0)\<rparr>"

definition spec_scenario :: DBN where
  "spec_scenario = build [Node ''A'' [] (Some \<lparr>parent_weights = [], noise_std = 0, intrinsic_mean = 5\<rparr>),
                 Node ''B'' [(''A'', 1)] (Some \<lparr>parent_weights = [((''A'', 1), 8/10)], noise_std = 0, intrinsic_mean = 1\<rparr>)]"

definition spec_scenario_args :: generate_args where
  "spec_scenario_args = (default_args 3)\<lparr>initial_values := Some [(''A'', [10]), (''B'', [5])]\<rparr>"

lemmas graph_eval = get_topological_order_def topological_sort_def build_graph_def
  G_add_node_def G_add_edge_def DiGraph_init_def in_degree_def neighbors_def dict_del_def Let_def

lemmas build_eval = build_def add_node_def DBN_init_def raise_max_lag_def

lemmas sampler_eval = generate_def time_axis_def seed_timeseries_def apply_initial_values_def
  starting_timestep_for_evaluation_def output_table_def DataFrame_def loc_rows_until_def
  evaluate_node_def node_cpd_evaluate_def node_time_feature_evaluate_def is_TemporalNode_def
  evaluate_def normal_def linear_sum_def get_weight_def py_index_def py_store_def py_position_def
  py_take_def py_drop_def Let_def

lemma spec_scenario_nodes: "nodes spec_scenario = [(''A'', Node ''A'' [] (Some \<lparr>parent_weights = [], noise_std = 0, intrinsic_mean = 5\<rparr>)),
   (''B'', Node ''B'' [(''A'', 1)] (Some \<lparr>parent_weights = [((''A'', 1), 8/10)], noise_std = 0, intrinsic_mean = 1\<rparr>))]"
   and spec_scenario_max_lag: "max_lag spec_scenario = 1"
  by (simp_all add: spec_scenario_def build_eval)

lemma spec_scenario_order: "get_topological_order spec_scenario = Inr (map snd (nodes spec_scenario))"
  by (simp add: spec_scenario_nodes graph_eval)

lemma upto_1_2: "[1..2] = [1, 2::int]" "[0..2] = [0,1,2::int]"
  by (simp_all add: upto.simps)


section \<open>Where the errors of the sampler come from\<close>

text \<open>The two errors of the start/frequency check, and the two of the check of the
  initial values.\<close>

definition start_frequency_error :: "error \<Rightarrow> bool" where
  "start_frequency_error e \<longleftrightarrow>
     e = ValueError_start_time_without_frequency \<or> e = ValueError_frequency_without_start_time"

definition initial_values_error :: "error \<Rightarrow> bool" where
  "initial_values_error e \<longleftrightarrow>
     (case e of ValueError_nodes_not_provided _ \<Rightarrow> True | ValueError_expected_values _ _ _ \<Rightarrow> True | _ \<Rightarrow> False)"

definition argument_error :: "error \<Rightarrow> bool" where
  "argument_error e \<longleftrightarrow> start_frequency_error e \<or> initial_values_error e"

lemma argument_error_simps:
  "argument_error ValueError_start_time_without_frequency"
  "argument_error ValueError_frequency_without_start_time"
  "argument_error (ValueError_nodes_not_provided L)"
  "argument_error (ValueError_expected_values m k n)"
  "\<not> argument_error ValueError_cycle_detected"
  "\<not> argument_error ValueError_scale_negative"
  "\<not> argument_error ValueError_unequal_column_lengths"
  "\<not> argument_error (KeyError k)"
  "\<not> argument_error IndexError"
  "\<not> argument_error TypeError"
  "\<not> argument_error AttributeError"
  "\<not> argument_error ZeroDivisionError"
  "\<not> argument_error RuntimeError_graph_changed"
  "\<not> argument_error NetworkXUnfeasible"
  "\<not> argument_error (PandasError msg)"
  "\<not> argument_error InvalidIndexError"
  by (simp_all add: argument_error_def start_frequency_error_def initial_values_error_def)

lemma lookup_all_error: "lookup_all d ks = Inl e \<Longrightarrow> \<exists>k. e = KeyError k"
  by (induction ks) (auto split: option.splits sum.splits)

lemma get_topological_order_error:
  assumes "get_topological_order dbn = Inl e"
  shows "e = ValueError_cycle_detected \<or> (\<exists>k. e = KeyError k)"
proof -
  have g: "gwf (build_graph dbn)" using build_graph_props[of dbn] by simp
  from topological_sort_cases[OF g] show ?thesis
  proof
    assume "\<exists>L. topological_sort (build_graph dbn) = Inr L \<and> distinct L \<and>
        set L = set (g_nodes (build_graph dbn)) \<and>
        (\<forall>e\<in>set (g_edges (build_graph dbn)). index_of L (fst e) < index_of L (snd e))"
    then obtain L where "topological_sort (build_graph dbn) = Inr L" by blast
    then have "lookup_all (nodes dbn) L = Inl e" using assms by (simp add: get_topological_order_def)
    then show ?thesis using lookup_all_error by blast
  next
    assume "topological_sort (build_graph dbn) = Inl NetworkXUnfeasible \<and> \<not> acyclic (set (g_edges (build_graph dbn)))"
    then show ?thesis using assms by (simp add: get_topological_order_def)
  qed
qed

lemma get_topological_order_not_argument_error:
  "get_topological_order dbn = Inl e \<Longrightarrow> \<not> argument_error e"
  using get_topological_order_error[of dbn e] by (auto simp: argument_error_simps)

lemma time_feature_evaluate_error:
  "time_feature_evaluate tf t = Inl e \<Longrightarrow> \<not> argument_error e"
  by (cases tf; cases t) (auto simp: argument_error_simps split: if_splits)

lemma node_time_feature_evaluate_error:
  "node_time_feature_evaluate n t = Inl e \<Longrightarrow> \<not> argument_error e"
  by (auto simp: node_time_feature_evaluate_def argument_error_simps
           split: option.splits sum.splits dest: time_feature_evaluate_error)

lemma map_raise_error:
  "(\<And>x e. f x = Inl e \<Longrightarrow> P e) \<Longrightarrow> map_raise f xs = Inl e \<Longrightarrow> P e"
  by (induction xs) (auto split: sum.splits)

lemma backfill_temporal_error:
  "backfill_temporal ns w iv = Inl e \<Longrightarrow> \<not> argument_error e"
proof (induction ns arbitrary: iv)
  case Nil
  then show ?case by simp
next
  case (Cons n ns)
  show ?case
  proof (cases "is_TemporalNode n")
    case True
    show ?thesis
    proof (cases "map_raise (node_time_feature_evaluate n) w")
      case (Inl e')
      then have "e' = e" using Cons.prems True by simp
      then show ?thesis
        using map_raise_error[of "node_time_feature_evaluate n" "\<lambda>e. \<not> argument_error e" w e] Inl
          node_time_feature_evaluate_error by blast
    next
      case (Inr vals)
      then show ?thesis using Cons True by simp
    qed
  next
    case False
    then show ?thesis using Cons by simp
  qed
qed

lemma seed_initial_error:
  "seed_initial ml iv names ts = Inl e \<Longrightarrow> \<not> start_frequency_error e"
  by (induction names arbitrary: ts)
     (auto simp: start_frequency_error_def split: option.splits if_splits)

lemma seed_timeseries_error:
  assumes "seed_timeseries ev dbn a axis = Inl e"
  shows "\<not> start_frequency_error e"
proof -
  from assms obtain iv where iv: "initial_values a = Some iv" "iv \<noteq> []"
    by (auto simp: seed_timeseries_def Let_def split: option.splits if_splits)
  define ts where "ts = dict_set (map (\<lambda>node_name. (node_name, replicate (nat (n_steps a)) (Num 0))) (map fst (nodes dbn)))
        (time_column_name a) (map cell_of_time axis)"
  define iv' where "iv' = map (\<lambda>kv. (fst kv, map Num (snd kv))) iv"
  have ai: "apply_initial_values ev dbn axis iv' ts = Inl e"
    using assms iv by (simp add: seed_timeseries_def Let_def ts_def iv'_def)
  show ?thesis
  proof (cases "backfill_temporal (map snd (nodes dbn)) (py_take (max_lag dbn) axis) iv'")
    case (Inl e')
    then have "e' = e" using ai by (simp add: apply_initial_values_def)
    then show ?thesis using backfill_temporal_error[OF Inl] by (simp add: argument_error_def)
  next
    case (Inr iv1)
    then show ?thesis using ai seed_initial_error
      by (auto simp: apply_initial_values_def Let_def start_frequency_error_def split: if_splits)
  qed
qed


lemma py_index_error: "py_index xs i = Inl e \<Longrightarrow> e = IndexError"
  by (auto simp: py_index_def split: option.splits)

lemma py_store_error: "py_store xs i v = Inl e \<Longrightarrow> e = IndexError"
  by (auto simp: py_store_def split: option.splits)

lemma parentwise_values_error:
  "parentwise_values ts d t ps pv = Inl e \<Longrightarrow> e = IndexError \<or> (\<exists>k. e = KeyError k)"
proof (induction ps arbitrary: pv)
  case Nil
  then show ?case by simp
next
  case (Cons a ps)
  obtain p lag where a: "a = (p, lag)" by (cases a)
  show ?case using Cons.prems Cons.IH unfolding a
    by (auto simp: Let_def split: if_splits option.splits sum.splits dest: py_index_error)
qed

lemma cell_values_error: "cell_values kvs = Inl e \<Longrightarrow> e = TypeError"
  by (induction kvs rule: cell_values.induct) (auto split: sum.splits)

lemma node_cpd_evaluate_error: "node_cpd_evaluate n z pv = Inl e \<Longrightarrow> \<not> argument_error e"
  by (auto simp: node_cpd_evaluate_def evaluate_def normal_def argument_error_simps
           split: option.splits sum.splits if_splits dest: cell_values_error)

lemma evaluate_node_error: "evaluate_node ev d ts ct t n = Inl e \<Longrightarrow> \<not> argument_error e"
  by (auto simp: evaluate_node_def argument_error_simps split: if_splits sum.splits
           dest: parentwise_values_error node_cpd_evaluate_error node_time_feature_evaluate_error)

lemma sample_timestep_error: "sample_timestep ev d ct t order ts = Inl e \<Longrightarrow> \<not> argument_error e"
proof (induction order arbitrary: ts)
  case Nil
  then show ?case by simp
next
  case (Cons n ns)
  show ?case using Cons.prems Cons.IH
    by (auto simp: argument_error_simps split: sum.splits option.splits
             dest: evaluate_node_error py_store_error)
qed

lemma sample_timesteps_error: "sample_timesteps ev d order steps ts = Inl e \<Longrightarrow> \<not> argument_error e"
proof (induction steps arbitrary: ts)
  case Nil
  then show ?case by simp
next
  case (Cons s steps)
  obtain ct t where s: "s = (ct, t)" by (cases s)
  show ?case using Cons.prems Cons.IH unfolding s
    by (auto split: sum.splits dest: sample_timestep_error)
qed

lemma output_table_error: "output_table a order ts = Inl e \<Longrightarrow> \<not> argument_error e"
  by (auto simp: output_table_def DataFrame_def loc_rows_until_def argument_error_simps
           split: sum.splits list.splits if_splits)

lemma time_axis_error:
  "(start_time a = None) = (frequency a = None) \<Longrightarrow> time_axis ev a = Inl e \<Longrightarrow> \<exists>msg. e = PandasError msg"
  by (auto simp: time_axis_def generate_datetime_series_def split: if_splits sum.splits option.splits)

lemma generate_error_cases:
  assumes "generate ev dbn a = Inl e"
  shows "time_axis ev a = Inl e
       \<or> (\<exists>axis. time_axis ev a = Inr axis \<and>
            (get_topological_order dbn = Inl e
           \<or> seed_timeseries ev dbn a axis = Inl e
           \<or> (\<exists>order steps ts. sample_timesteps ev (replacement_value_for_non_existing_parents a) order steps ts = Inl e)
           \<or> (\<exists>order ts. output_table a order ts = Inl e)))"
  using assms unfolding generate_def
  by (auto split: sum.splits)

text \<open>
  Claim C2: a call of \<^verbatim>\<open>generate\<close> with exactly one of \<open>start_time\<close> and \<open>frequency\<close>
  fails with the argument error of that case, whatever the network, the other arguments and
  the draws are (nothing is sampled); with both or neither, the call never ends in either of
  these two errors.
\<close>

theorem generate_start_time_frequency:
  "(start_time a \<noteq> None \<and> frequency a = None \<longrightarrow>
      generate ev dbn a = Inl ValueError_start_time_without_frequency) \<and>
   (start_time a = None \<and> frequency a \<noteq> None \<longrightarrow>
      generate ev dbn a = Inl ValueError_frequency_without_start_time) \<and>
   ((start_time a = None) = (frequency a = None) \<longrightarrow>
      generate ev dbn a \<noteq> Inl ValueError_start_time_without_frequency \<and>
      generate ev dbn a \<noteq> Inl ValueError_frequency_without_start_time)"
proof (intro conjI impI)
  assume "start_time a \<noteq> None \<and> frequency a = None"
  then show "generate ev dbn a = Inl ValueError_start_time_without_frequency"
    by (simp add: generate_def time_axis_def)
next
  assume "start_time a = None \<and> frequency a \<noteq> None"
  then show "generate ev dbn a = Inl ValueError_frequency_without_start_time"
    by (simp add: generate_def time_axis_def)
next
  assume both: "(start_time a = None) = (frequency a = None)"
  have no: "\<not> start_frequency_error e" if "generate ev dbn a = Inl e" for e
  proof -
    from generate_error_cases[OF that]
    consider "time_axis ev a = Inl e"
      | "get_topological_order dbn = Inl e"
      | axis where "seed_timeseries ev dbn a axis = Inl e"
      | order steps ts where "sample_timesteps ev (replacement_value_for_non_existing_parents a) order steps ts = Inl e"
      | order ts where "output_table a order ts = Inl e"
      by blast
    then show ?thesis
    proof cases
      case 1
      from time_axis_error[OF both 1] show ?thesis by (auto simp: start_frequency_error_def)
    next
      case 2
      from get_topological_order_not_argument_error[OF 2] show ?thesis by (simp add: argument_error_def)
    next
      case 3
      then show ?thesis by (rule seed_timeseries_error)
    next
      case 4
      from sample_timesteps_error[OF 4] show ?thesis by (simp add: argument_error_def)
    next
      case 5
      from output_table_error[OF 5] show ?thesis by (simp add: argument_error_def)
    qed
  qed
  show "generate ev dbn a \<noteq> Inl ValueError_start_time_without_frequency"
    using no[of ValueError_start_time_without_frequency] by (auto simp: start_frequency_error_def)
  show "generate ev dbn a \<noteq> Inl ValueError_frequency_without_start_time"
    using no[of ValueError_frequency_without_start_time] by (auto simp: start_frequency_error_def)
qed

theorem generate_start_time_frequency_witness:
  "generate quiet_environment spec_scenario (spec_scenario_args\<lparr>start_time := Some ''01-03-2025''\<rparr>) = Inl ValueError_start_time_without_frequency \<and>
   generate quiet_environment spec_scenario (spec_scenario_args\<lparr>frequency := Some ''D''\<rparr>) = Inl ValueError_frequency_without_start_time \<and>
   generate quiet_environment spec_scenario spec_scenario_args \<noteq> Inl ValueError_start_time_without_frequency \<and>
   generate quiet_environment spec_scenario spec_scenario_args \<noteq> Inl ValueError_frequency_without_start_time \<and>
   generate quiet_environment spec_scenario (spec_scenario_args\<lparr>start_time := Some ''01-03-2025'', frequency := Some ''D''\<rparr>)
      \<noteq> Inl ValueError_start_time_without_frequency"
  using generate_start_time_frequency[of "spec_scenario_args\<lparr>start_time := Some ''01-03-2025''\<rparr>" quiet_environment spec_scenario]
    generate_start_time_frequency[of "spec_scenario_args\<lparr>frequency := Some ''D''\<rparr>" quiet_environment spec_scenario]
    generate_start_time_frequency[of spec_scenario_args quiet_environment spec_scenario]
    generate_start_time_frequency[of "spec_scenario_args\<lparr>start_time := Some ''01-03-2025'', frequency := Some ''D''\<rparr>" quiet_environment spec_scenario]
  by (simp add: spec_scenario_args_def default_args_def)

section \<open>The rows before the first sampled timestep\<close>









lemma map_of_placeholders:
  "map_of (map (\<lambda>node_name. (node_name, c)) ks) k = (if k \<in> set ks then Some c else None)"
  by (induction ks) auto





section \<open>The output table and the parent values\<close>

text \<open>A temporal node \<open>T\<close> (the position in a cycle of length 7) and a node \<open>Z\<close> with
  the zero-lag parent \<open>T\<close> and itself as lag-1 parent; a call with two steps.\<close>

definition temporal_example :: DBN where
  "temporal_example =
     build [TemporalNode ''T'' (Some (PointOfPeriodicCycle 7)),
            Node ''Z'' [(''T'', 0), (''Z'', 1)]
              (Some \<lparr>parent_weights = [((''T'', 0), 2), ((''Z'', 1), 1)], noise_std = 0,
                     intrinsic_mean = 1\<rparr>)]"

definition temporal_example_args :: generate_args where
  "temporal_example_args = default_args 2"

lemma temporal_example_nodes:
  "nodes temporal_example =
     [(''T'', TemporalNode ''T'' (Some (PointOfPeriodicCycle 7))),
      (''Z'', Node ''Z'' [(''T'', 0), (''Z'', 1)]
              (Some \<lparr>parent_weights = [((''T'', 0), 2), ((''Z'', 1), 1)], noise_std = 0,
                     intrinsic_mean = 1\<rparr>))]"
  and temporal_example_max_lag: "max_lag temporal_example = 1"
  by (simp_all add: temporal_example_def build_eval)

lemma temporal_example_order: "get_topological_order temporal_example = Inr (map snd (nodes temporal_example))"
  by (simp add: temporal_example_nodes graph_eval)

lemma upto_0_1: "[0..1] = [0, 1::int]"
  by (simp add: upto.simps)

text \<open>With the flag set the call never returns a table.\<close>

lemma generate_exclude_never_returns:
  "exclude_temporal_nodes_from_output a \<Longrightarrow> generate ev dbn a \<noteq> Inr table"
  by (auto simp: generate_def output_table_def loc_rows_until_def split: sum.splits)

text \<open>
  Claim C8: with \<^verbatim>\<open>exclude_temporal_nodes_from_output\<close> set, the returned table has the
  columns of the non-temporal nodes and the time column, the temporal nodes having taken part
  in the sampling. On the network of the temporal node \<open>T\<close> and the node \<open>Z\<close>, the call without the flag returns the three columns, \<open>Z\<close> computed from the
  values of \<open>T\<close>; the same call with the flag set samples the same way and then fails in
  \<^verbatim>\<open>timeseries_dataset.loc[: [...]]\<close>, which slices rows up to a list instead of
  selecting the columns.
\<close>

theorem generate_exclude_temporal_nodes_fails:
  "generate quiet_environment temporal_example temporal_example_args
     = Inr [(''T'', [Num 1, Num 2]), (''Z'', [Num 3, Num 8]), (''Time'', [Num 0, Num 1])] \<and>
   generate quiet_environment temporal_example (temporal_example_args\<lparr>exclude_temporal_nodes_from_output := True\<rparr>)
     = Inl InvalidIndexError"
  by (simp add: sampler_eval temporal_example_order temporal_example_nodes temporal_example_max_lag
        temporal_example_args_def default_args_def quiet_environment_def upto_0_1 numeral_2_eq_2)





section \<open>The sampled entries satisfy the sampling equations\<close>


















lemma spec_scenario_axis: "time_axis quiet_environment (spec_scenario_args\<lparr>initial_values := x\<rparr>) = Inr [TInt 0, TInt 1, TInt 2]"
  by (simp add: time_axis_def spec_scenario_args_def default_args_def upto_1_2)


section \<open>The check of the initial values\<close>

text \<open>The iteration order of a set holds exactly the elements of the set.\<close>

definition set_order_ok :: "environment \<Rightarrow> bool" where
  "set_order_ok ev \<longleftrightarrow> (\<forall>xs. set (set_order ev xs) = set xs)"

text \<open>The names of the temporal nodes.\<close>

definition temporal_names :: "node list \<Rightarrow> string set" where
  "temporal_names ns = name ` {n \<in> set ns. is_TemporalNode n}"

lemma backfill_temporal_keys:
  "backfill_temporal ns w iv = Inr iv1 \<Longrightarrow>
     set (map fst iv1) = set (map fst iv) \<union> temporal_names ns \<and>
     (\<forall>k. k \<notin> temporal_names ns \<longrightarrow> map_of iv1 k = map_of iv k)"
proof (induction ns arbitrary: iv)
  case Nil
  then show ?case by (simp add: temporal_names_def)
next
  case (Cons n ns)
  show ?case
  proof (cases "is_TemporalNode n")
    case True
    then obtain vals where r: "backfill_temporal ns w (dict_set iv (name n) vals) = Inr iv1"
      using Cons.prems by (auto split: sum.splits)
    have tn: "temporal_names (n # ns) = insert (name n) (temporal_names ns)"
      using True by (auto simp: temporal_names_def)
    from Cons.IH[OF r] have
      a: "set (map fst iv1) = set (map fst (dict_set iv (name n) vals)) \<union> temporal_names ns" and
      b: "\<And>k. k \<notin> temporal_names ns \<Longrightarrow> map_of iv1 k = map_of (dict_set iv (name n) vals) k"
      by blast+
    have "set (map fst iv1) = insert (name n) (set (map fst iv)) \<union> temporal_names ns"
      using a by (simp only: keys_dict_set)
    then have 1: "set (map fst iv1) = set (map fst iv) \<union> temporal_names (n # ns)"
      unfolding tn by blast
    have 2: "map_of iv1 k = map_of iv k" if "k \<notin> temporal_names (n # ns)" for k
      using that b[of k] unfolding tn by (simp add: map_of_dict_set)
    show ?thesis using 1 2 by blast
  next
    case False
    then have r: "backfill_temporal ns w iv = Inr iv1" using Cons.prems by simp
    have tn: "temporal_names (n # ns) = temporal_names ns"
      using False by (auto simp: temporal_names_def)
    from Cons.IH[OF r] show ?thesis unfolding tn by simp
  qed
qed

lemma backfill_temporal_entry:
  "backfill_temporal ns w iv = Inr iv1 \<Longrightarrow> distinct (map name ns) \<Longrightarrow> n \<in> set ns \<Longrightarrow>
   is_TemporalNode n \<Longrightarrow>
   \<exists>vals. map_raise (node_time_feature_evaluate n) w = Inr vals \<and> map_of iv1 (name n) = Some vals"
proof (induction ns arbitrary: iv)
  case Nil
  then show ?case by simp
next
  case (Cons m ns)
  show ?case
  proof (cases "n = m")
    case True
    then obtain vals where v: "map_raise (node_time_feature_evaluate n) w = Inr vals"
      and r: "backfill_temporal ns w (dict_set iv (name n) vals) = Inr iv1"
      using Cons.prems(1,4) by (auto split: sum.splits)
    have "name n \<notin> temporal_names ns"
      using Cons.prems(2) True by (auto simp: temporal_names_def)
    with backfill_temporal_keys[OF r] have "map_of iv1 (name n) = map_of (dict_set iv (name n) vals) (name n)"
      by blast
    then show ?thesis using v by (simp add: map_of_dict_set)
  next
    case False
    then have n: "n \<in> set ns" using Cons.prems(3) by simp
    have d: "distinct (map name ns)" using Cons.prems(2) by simp
    show ?thesis
    proof (cases "is_TemporalNode m")
      case True
      then obtain vals where r: "backfill_temporal ns w (dict_set iv (name m) vals) = Inr iv1"
        using Cons.prems(1) by (auto split: sum.splits)
      from Cons.IH[OF r d n Cons.prems(4)] show ?thesis .
    next
      case False
      then have r: "backfill_temporal ns w iv = Inr iv1" using Cons.prems(1) by simp
      from Cons.IH[OF r d n Cons.prems(4)] show ?thesis .
    qed
  qed
qed

lemma seed_initial_fails:
  "\<exists>k \<in> set names. \<exists>vs. map_of iv k = Some vs \<and> int (length vs) \<noteq> ml \<Longrightarrow>
   \<exists>e. seed_initial ml iv names ts = Inl e"
proof (induction names arbitrary: ts)
  case Nil
  then show ?case by simp
next
  case (Cons k names)
  show ?case
  proof (cases "map_of iv k")
    case None
    then show ?thesis by simp
  next
    case (Some vals)
    show ?thesis
    proof (cases "int (length vals) \<noteq> ml")
      case True
      then show ?thesis using Some by simp
    next
      case False
      then have rest: "\<exists>k \<in> set names. \<exists>vs. map_of iv k = Some vs \<and> int (length vs) \<noteq> ml"
        using Cons.prems Some by auto
      show ?thesis
      proof (cases "map_of ts k")
        case None
        then show ?thesis using Some False by simp
      next
        case (Some col)
        from Cons.IH[OF rest, of "dict_set ts k (vals @ py_drop ml col)"]
        show ?thesis using Some \<open>map_of iv k = Some vals\<close> False by simp
      qed
    qed
  qed
qed

lemma seed_initial_wrong_length:
  "\<forall>k \<in> set names. map_of iv k \<noteq> None \<Longrightarrow> \<forall>k \<in> set names. map_of ts k \<noteq> None \<Longrightarrow>
   \<exists>k \<in> set names. \<exists>vs. map_of iv k = Some vs \<and> int (length vs) \<noteq> ml \<Longrightarrow>
   \<exists>k vs. seed_initial ml iv names ts = Inl (ValueError_expected_values ml k (length vs)) \<and>
          k \<in> set names \<and> map_of iv k = Some vs \<and> int (length vs) \<noteq> ml"
proof (induction names arbitrary: ts)
  case Nil
  then show ?case by simp
next
  case (Cons k names)
  from Cons.prems(1) obtain vals where vals: "map_of iv k = Some vals" by auto
  from Cons.prems(2) obtain col where col: "map_of ts k = Some col" by auto
  show ?case
  proof (cases "int (length vals) \<noteq> ml")
    case True
    then have "seed_initial ml iv (k # names) ts = Inl (ValueError_expected_values ml k (length vals))"
      using vals by simp
    then show ?thesis using vals True by auto
  next
    case False
    let ?ts1 = "dict_set ts k (vals @ py_drop ml col)"
    have 1: "\<forall>k \<in> set names. map_of iv k \<noteq> None" using Cons.prems(1) by simp
    have 2: "\<forall>k' \<in> set names. map_of ?ts1 k' \<noteq> None"
      using Cons.prems(2) by (simp add: map_of_dict_set)
    have 3: "\<exists>k \<in> set names. \<exists>vs. map_of iv k = Some vs \<and> int (length vs) \<noteq> ml"
      using Cons.prems(3) vals False by auto
    from Cons.IH[OF 1 2 3] obtain k' vs where
      "seed_initial ml iv names ?ts1 = Inl (ValueError_expected_values ml k' (length vs))"
      "k' \<in> set names" "map_of iv k' = Some vs" "int (length vs) \<noteq> ml"
      by blast
    moreover have "seed_initial ml iv (k # names) ts = seed_initial ml iv names ?ts1"
      using vals col False by simp
    ultimately show ?thesis by auto
  qed
qed

lemma temporal_key_iff:
  assumes "dbn_wf dbn" "(k, n) \<in> set (nodes dbn)"
  shows "k \<in> temporal_names (map snd (nodes dbn)) \<longleftrightarrow> is_TemporalNode n"
proof
  assume "k \<in> temporal_names (map snd (nodes dbn))"
  then obtain kn where kn: "kn \<in> set (nodes dbn)" "is_TemporalNode (snd kn)" "name (snd kn) = k"
    by (auto simp: temporal_names_def)
  then have "fst kn = k" using assms(1) unfolding dbn_wf_def by auto
  then have "kn = (k, snd kn)" by (cases kn) simp
  then have "(k, snd kn) \<in> set (nodes dbn)" using kn(1) by simp
  then have "snd kn = n" using assms unfolding dbn_wf_def
    by (meson eq_key_imp_eq_value)
  then show "is_TemporalNode n" using kn(2) by simp
next
  assume "is_TemporalNode n"
  moreover have "name n = k" using assms unfolding dbn_wf_def by force
  ultimately show "k \<in> temporal_names (map snd (nodes dbn))"
    using assms(2) unfolding temporal_names_def by force
qed

lemma timeseries_has_nodes:
  "k \<in> set (map fst (nodes dbn)) \<Longrightarrow>
   map_of (dict_set (map (\<lambda>node_name. (node_name, c)) (map fst (nodes dbn))) tc col) k \<noteq> None"
  using map_of_placeholders[of c "map fst (nodes dbn)" k]
  by (simp add: map_of_dict_set)

lemma apply_initial_values_missing:
  assumes so: "set_order_ok ev"
    and bf: "backfill_temporal (map snd (nodes dbn)) (py_take (max_lag dbn) axis) iv' = Inr iv1"
    and miss: "k \<in> set (map fst (nodes dbn))" "k \<notin> set (map fst iv1)"
  shows "\<exists>L. apply_initial_values ev dbn axis iv' ts = Inl (ValueError_nodes_not_provided L) \<and>
             set L = {k \<in> set (map fst (nodes dbn)). k \<notin> set (map fst iv1)}"
proof -
  have ne: "set (map fst (nodes dbn)) \<noteq> set (map fst iv1)" using miss by blast
  have "set (set_order ev (filter (\<lambda>k. k \<notin> set (map fst iv1)) (map fst (nodes dbn))))
      = {k \<in> set (map fst (nodes dbn)). k \<notin> set (map fst iv1)}"
    using so unfolding set_order_ok_def by auto
  then show ?thesis
    unfolding apply_initial_values_def using bf ne by (simp add: Let_def)
qed

lemma apply_initial_values_wrong_length:
  assumes so: "set_order_ok ev"
    and bf: "backfill_temporal (map snd (nodes dbn)) (py_take (max_lag dbn) axis) iv' = Inr iv1"
    and same: "set (map fst iv1) = set (map fst (nodes dbn))"
    and ts: "\<forall>k \<in> set (map fst (nodes dbn)). map_of ts k \<noteq> None"
    and wrong: "k \<in> set (map fst (nodes dbn))" "map_of iv1 k = Some vs" "int (length vs) \<noteq> max_lag dbn"
  shows "\<exists>k' c. apply_initial_values ev dbn axis iv' ts
            = Inl (ValueError_expected_values (max_lag dbn) k' (length c)) \<and>
          k' \<in> set (map fst (nodes dbn)) \<and> map_of iv1 k' = Some c \<and> int (length c) \<noteq> max_lag dbn"
proof -
  let ?names = "set_order ev (map fst (nodes dbn))"
  have sn: "set ?names = set (map fst (nodes dbn))" using so unfolding set_order_ok_def by simp
  have 1: "\<forall>k \<in> set ?names. map_of iv1 k \<noteq> None"
  proof
    fix k' assume "k' \<in> set ?names"
    then have "k' \<in> set (map fst iv1)" using sn same by simp
    then show "map_of iv1 k' \<noteq> None" by (simp add: map_of_eq_None_iff)
  qed
  have 2: "\<forall>k \<in> set ?names. map_of ts k \<noteq> None" using ts sn by simp
  have 3: "\<exists>k \<in> set ?names. \<exists>vs. map_of iv1 k = Some vs \<and> int (length vs) \<noteq> max_lag dbn"
    using wrong sn by blast
  from seed_initial_wrong_length[OF 1 2 3] obtain k' c where
    "seed_initial (max_lag dbn) iv1 ?names ts = Inl (ValueError_expected_values (max_lag dbn) k' (length c))"
    "k' \<in> set ?names" "map_of iv1 k' = Some c" "int (length c) \<noteq> max_lag dbn"
    by blast
  then show ?thesis
    unfolding apply_initial_values_def using bf same sn by (auto simp: Let_def)
qed

lemma apply_initial_values_fails:
  assumes so: "set_order_ok ev" and wf: "dbn_wf dbn"
    and n: "(k, n) \<in> set (nodes dbn)" "\<not> is_TemporalNode n"
    and bad: "map_of iv' k = None \<or> (\<exists>vs. map_of iv' k = Some vs \<and> int (length vs) \<noteq> max_lag dbn)"
  shows "\<exists>e. apply_initial_values ev dbn axis iv' ts = Inl e"
proof (cases "backfill_temporal (map snd (nodes dbn)) (py_take (max_lag dbn) axis) iv'")
  case (Inl e)
  then show ?thesis by (simp add: apply_initial_values_def)
next
  case (Inr iv1)
  have kk: "k \<in> set (map fst (nodes dbn))" using n(1) by force
  have nt: "k \<notin> temporal_names (map snd (nodes dbn))"
    using temporal_key_iff[OF wf n(1)] n(2) by simp
  from backfill_temporal_keys[OF Inr] nt
  have keys: "set (map fst iv1) = set (map fst iv') \<union> temporal_names (map snd (nodes dbn))"
    and same: "map_of iv1 k = map_of iv' k" by simp_all
  show ?thesis
  proof (cases "set (map fst (nodes dbn)) = set (map fst iv1)")
    case False
    then show ?thesis unfolding apply_initial_values_def using Inr by (simp add: Let_def)
  next
    case True
    then have "k \<in> set (map fst iv1)" using kk by simp
    then have "map_of iv1 k \<noteq> None" by (simp add: map_of_eq_None_iff)
    then obtain vs where vs: "map_of iv1 k = Some vs" "int (length vs) \<noteq> max_lag dbn"
      using bad same by auto
    have "k \<in> set (set_order ev (map fst (nodes dbn)))"
      using so kk unfolding set_order_ok_def by simp
    then have "\<exists>k \<in> set (set_order ev (map fst (nodes dbn))). \<exists>vs. map_of iv1 k = Some vs \<and> int (length vs) \<noteq> max_lag dbn"
      using vs by blast
    from seed_initial_fails[OF this] show ?thesis
      unfolding apply_initial_values_def using Inr True by (simp add: Let_def)
  qed
qed

lemma seed_timeseries_given:
  "initial_values a = Some iv \<Longrightarrow> iv \<noteq> [] \<Longrightarrow>
   seed_timeseries ev dbn a axis =
     apply_initial_values ev dbn axis (map (\<lambda>kv. (fst kv, map Num (snd kv))) iv)
       (dict_set (map (\<lambda>node_name. (node_name, replicate (nat (n_steps a)) (Num 0))) (map fst (nodes dbn)))
          (time_column_name a) (map cell_of_time axis))"
  by (simp add: seed_timeseries_def Let_def)

lemma generate_seed_error:
  "time_axis ev a = Inr axis \<Longrightarrow> get_topological_order dbn = Inr order \<Longrightarrow>
   seed_timeseries ev dbn a axis = Inl e \<Longrightarrow> generate ev dbn a = Inl e"
  by (simp add: generate_def)

lemma generate_fails_if_seed_fails:
  "(\<And>axis. \<exists>e. seed_timeseries ev dbn a axis = Inl e) \<Longrightarrow> \<exists>e. generate ev dbn a = Inl e"
  unfolding generate_def by (auto split: sum.splits) (metis sum.distinct(1))

text \<open>
  Claim C5: when \<^verbatim>\<open>initial_values\<close> is a non-empty mapping, an entry of a length other
  than \<open>max_lag\<close> makes the call fail with an argument error that names the node, the
  expected and the actual length. It does not for the entry of a temporal node: on the
  temporal example, where \<open>max_lag\<close> is 1, the entry of three values supplied for the
  temporal node \<open>T\<close> is replaced by the derived window before any check, and the call
  returns the table it returns without that entry. Nor does it when the mapping has a key
  that is no node: with \<open>C\<close> added to the mapping of the two-node scenario, the entry of
  two values for \<open>B\<close> is never looked at, and the error is the one for missing nodes,
  naming none.
\<close>

theorem generate_initial_values_counterexample:
  "max_lag temporal_example = 1 \<and>
   generate quiet_environment temporal_example
       (temporal_example_args\<lparr>initial_values := Some [(''Z'', [4]), (''T'', [99, 98, 97])]\<rparr>)
     = Inr [(''T'', [Num 1, Num 2]), (''Z'', [Num 4, Num 9]), (''Time'', [Num 0, Num 1])] \<and>
   max_lag spec_scenario = 1 \<and>
   generate quiet_environment spec_scenario
       (spec_scenario_args\<lparr>initial_values := Some [(''A'', [10]), (''B'', [5, 6]), (''C'', [1])]\<rparr>)
     = Inl (ValueError_nodes_not_provided [])"
proof -
  have t: "generate quiet_environment temporal_example
       (temporal_example_args\<lparr>initial_values := Some [(''Z'', [4]), (''T'', [99, 98, 97])]\<rparr>)
     = Inr [(''T'', [Num 1, Num 2]), (''Z'', [Num 4, Num 9]), (''Time'', [Num 0, Num 1])]"
    by (simp add: sampler_eval temporal_example_order temporal_example_nodes temporal_example_max_lag
        temporal_example_args_def default_args_def quiet_environment_def upto_0_1 upto.simps numeral_2_eq_2
        insert_commute)
  have "''C'' \<notin> {''B'', ''A''}" by simp
  moreover have "''C'' \<in> {''B'', ''A'', ''C''}" by simp
  ultimately have ne: "{''B'', ''A''} \<noteq> {''B'', ''A'', ''C''}" by metis
  have s: "generate quiet_environment spec_scenario
       (spec_scenario_args\<lparr>initial_values := Some [(''A'', [10]), (''B'', [5, 6]), (''C'', [1])]\<rparr>)
     = Inl (ValueError_nodes_not_provided [])"
    by (simp add: sampler_eval spec_scenario_order spec_scenario_nodes spec_scenario_max_lag
        spec_scenario_args_def default_args_def quiet_environment_def upto_1_2 insert_commute ne)
  show ?thesis using t s temporal_example_max_lag spec_scenario_max_lag by blast
qed

text \<open>
  Claim C5 as amended: for a call with a non-empty \<^verbatim>\<open>initial_values\<close> mapping on a network
  built by \<^verbatim>\<open>add_node\<close> calls. A non-temporal node that is missing from the mapping, or
  whose entry has a length other than \<open>max_lag\<close>, makes the call fail, so that no sample is
  generated. When the steps before the check succeed (time axis, ordering, the derivation of
  the temporal windows), a missing non-temporal node gives the error that names exactly the
  missing nodes; with every node provided and no other key, an entry of a wrong length for a
  non-temporal node gives the error that names a node, the expected length \<open>max_lag\<close> and
  the length found. The entry of every temporal node is derived by evaluating its time
  feature on the first \<open>max_lag\<close> entries of the time axis, supplied or not.
\<close>

theorem generate_initial_values_validation:
  assumes so: "set_order_ok ev" and iv: "initial_values a = Some iv" and ne: "iv \<noteq> []"
  shows
   "((k, n) \<in> set (nodes (build ns)) \<and> \<not> is_TemporalNode n \<and>
       (map_of iv k = None \<or> (\<exists>vs. map_of iv k = Some vs \<and> int (length vs) \<noteq> max_lag (build ns)))
       \<longrightarrow> (\<exists>e. generate ev (build ns) a = Inl e)) \<and>
    (time_axis ev a = Inr axis \<and> get_topological_order (build ns) = Inr order \<and>
     backfill_temporal (map snd (nodes (build ns))) (py_take (max_lag (build ns)) axis)
        (map (\<lambda>kv. (fst kv, map Num (snd kv))) iv) = Inr iv1 \<longrightarrow>
       ((\<exists>kn \<in> set (nodes (build ns)). \<not> is_TemporalNode (snd kn) \<and> map_of iv (fst kn) = None) \<longrightarrow>
          (\<exists>L. generate ev (build ns) a = Inl (ValueError_nodes_not_provided L) \<and>
               set L = fst ` {kn \<in> set (nodes (build ns)).
                               \<not> is_TemporalNode (snd kn) \<and> map_of iv (fst kn) = None})) \<and>
       (set (map fst iv1) = set (map fst (nodes (build ns))) \<and>
        (\<exists>kn \<in> set (nodes (build ns)). \<not> is_TemporalNode (snd kn) \<and>
            (\<exists>vs. map_of iv (fst kn) = Some vs \<and> int (length vs) \<noteq> max_lag (build ns))) \<longrightarrow>
          (\<exists>k' c. generate ev (build ns) a
                     = Inl (ValueError_expected_values (max_lag (build ns)) k' (length c)) \<and>
                  k' \<in> set (map fst (nodes (build ns))) \<and> map_of iv1 k' = Some c \<and>
                  int (length c) \<noteq> max_lag (build ns))) \<and>
       (\<forall>kn \<in> set (nodes (build ns)). is_TemporalNode (snd kn) \<longrightarrow>
          (\<exists>vals. map_raise (node_time_feature_evaluate (snd kn)) (py_take (max_lag (build ns)) axis)
                     = Inr vals \<and>
                  map_of iv1 (fst kn) = Some vals)))"
proof (intro conjI impI)
  let ?dbn = "build ns"
  let ?iv' = "map (\<lambda>kv. (fst kv, map Num (snd kv))) iv"
  note wf = dbn_wf_build[of ns]
  have mo: "\<And>k. map_of ?iv' k = map_option (map Num) (map_of iv k)" by (rule map_of_map_value)
  {
    assume h: "(k, n) \<in> set (nodes ?dbn) \<and> \<not> is_TemporalNode n \<and>
       (map_of iv k = None \<or> (\<exists>vs. map_of iv k = Some vs \<and> int (length vs) \<noteq> max_lag ?dbn))"
    then have bad: "map_of ?iv' k = None \<or> (\<exists>vs. map_of ?iv' k = Some vs \<and> int (length vs) \<noteq> max_lag ?dbn)"
      unfolding mo by auto
    have "\<exists>e. seed_timeseries ev ?dbn a axis = Inl e" for axis
      unfolding seed_timeseries_given[OF iv ne]
      using apply_initial_values_fails[OF so wf _ _ bad] h by blast
    then show "\<exists>e. generate ev ?dbn a = Inl e" by (rule generate_fails_if_seed_fails)
  }
  assume st: "time_axis ev a = Inr axis \<and> get_topological_order ?dbn = Inr order \<and>
     backfill_temporal (map snd (nodes ?dbn)) (py_take (max_lag ?dbn) axis) ?iv' = Inr iv1"
  then have ax: "time_axis ev a = Inr axis" and ord: "get_topological_order ?dbn = Inr order"
    and bf: "backfill_temporal (map snd (nodes ?dbn)) (py_take (max_lag ?dbn) axis) ?iv' = Inr iv1"
    by simp_all
  let ?ts = "dict_set (map (\<lambda>node_name. (node_name, replicate (nat (n_steps a)) (Num 0))) (map fst (nodes ?dbn)))
          (time_column_name a) (map cell_of_time axis)"
  from backfill_temporal_keys[OF bf]
  have keys: "set (map fst iv1) = set (map fst ?iv') \<union> temporal_names (map snd (nodes ?dbn))"
    and other: "\<And>k. k \<notin> temporal_names (map snd (nodes ?dbn)) \<Longrightarrow> map_of iv1 k = map_of ?iv' k"
    by blast+
  have absent: "k \<notin> set (map fst iv1) \<longleftrightarrow> \<not> is_TemporalNode n \<and> map_of iv k = None"
    if "(k, n) \<in> set (nodes ?dbn)" for k n
  proof -
    have "k \<in> set (map fst ?iv') \<longleftrightarrow> map_of iv k \<noteq> None"
      by (simp add: map_of_eq_None_iff comp_def)
    then show ?thesis using keys temporal_key_iff[OF wf that] by blast
  qed
  {
    assume "\<exists>kn \<in> set (nodes ?dbn). \<not> is_TemporalNode (snd kn) \<and> map_of iv (fst kn) = None"
    then obtain k n where kn: "(k, n) \<in> set (nodes ?dbn)" "\<not> is_TemporalNode n" "map_of iv k = None"
      by force
    have 1: "k \<in> set (map fst (nodes ?dbn))" using kn(1) by force
    have 2: "k \<notin> set (map fst iv1)" using absent[OF kn(1)] kn(2,3) by simp
    from apply_initial_values_missing[OF so bf 1 2, of ?ts] obtain L where
      L: "apply_initial_values ev ?dbn axis ?iv' ?ts = Inl (ValueError_nodes_not_provided L)"
         "set L = {k \<in> set (map fst (nodes ?dbn)). k \<notin> set (map fst iv1)}"
      by blast
    have "generate ev ?dbn a = Inl (ValueError_nodes_not_provided L)"
      using generate_seed_error[OF ax ord] L(1) unfolding seed_timeseries_given[OF iv ne] by simp
    moreover have "set L = fst ` {kn \<in> set (nodes ?dbn). \<not> is_TemporalNode (snd kn) \<and> map_of iv (fst kn) = None}"
    proof
      show "set L \<subseteq> fst ` {kn \<in> set (nodes ?dbn). \<not> is_TemporalNode (snd kn) \<and> map_of iv (fst kn) = None}"
      proof
        fix x assume "x \<in> set L"
        then have x: "x \<in> set (map fst (nodes ?dbn))" "x \<notin> set (map fst iv1)" using L(2) by simp_all
        then obtain m where m: "(x, m) \<in> set (nodes ?dbn)" by auto
        from absent[OF m] x(2) have "\<not> is_TemporalNode m \<and> map_of iv x = None" by simp
        then show "x \<in> fst ` {kn \<in> set (nodes ?dbn). \<not> is_TemporalNode (snd kn) \<and> map_of iv (fst kn) = None}"
          using m by force
      qed
      show "fst ` {kn \<in> set (nodes ?dbn). \<not> is_TemporalNode (snd kn) \<and> map_of iv (fst kn) = None} \<subseteq> set L"
      proof
        fix x assume "x \<in> fst ` {kn \<in> set (nodes ?dbn). \<not> is_TemporalNode (snd kn) \<and> map_of iv (fst kn) = None}"
        then obtain m where m: "(x, m) \<in> set (nodes ?dbn)" "\<not> is_TemporalNode m" "map_of iv x = None"
          by force
        from absent[OF m(1)] m(2,3) have "x \<notin> set (map fst iv1)" by simp
        moreover have "x \<in> set (map fst (nodes ?dbn))" using m(1) by force
        ultimately show "x \<in> set L" using L(2) by simp
      qed
    qed
    ultimately show "\<exists>L. generate ev ?dbn a = Inl (ValueError_nodes_not_provided L) \<and>
               set L = fst ` {kn \<in> set (nodes ?dbn). \<not> is_TemporalNode (snd kn) \<and> map_of iv (fst kn) = None}"
      by blast
  }
  {
    assume h: "set (map fst iv1) = set (map fst (nodes ?dbn)) \<and>
        (\<exists>kn \<in> set (nodes ?dbn). \<not> is_TemporalNode (snd kn) \<and>
            (\<exists>vs. map_of iv (fst kn) = Some vs \<and> int (length vs) \<noteq> max_lag ?dbn))"
    then obtain k n vs where same: "set (map fst iv1) = set (map fst (nodes ?dbn))" and
      kn: "(k, n) \<in> set (nodes ?dbn)" "\<not> is_TemporalNode n" "map_of iv k = Some vs"
          "int (length vs) \<noteq> max_lag ?dbn"
      by force
    have kk: "k \<in> set (map fst (nodes ?dbn))" using kn(1) by force
    have "k \<notin> temporal_names (map snd (nodes ?dbn))" using temporal_key_iff[OF wf kn(1)] kn(2) by simp
    from other[OF this] have e1: "map_of iv1 k = Some (map Num vs)" using kn(3) by (simp add: mo)
    have e2: "int (length (map Num vs)) \<noteq> max_lag ?dbn" using kn(4) by simp
    have tsn: "\<forall>k \<in> set (map fst (nodes ?dbn)). map_of ?ts k \<noteq> None"
    proof
      fix x assume "x \<in> set (map fst (nodes ?dbn))"
      then show "map_of ?ts x \<noteq> None" by (rule timeseries_has_nodes)
    qed
    from apply_initial_values_wrong_length[OF so bf same tsn kk e1 e2] obtain k' c where
      r: "apply_initial_values ev ?dbn axis ?iv' ?ts = Inl (ValueError_expected_values (max_lag ?dbn) k' (length c))"
         "k' \<in> set (map fst (nodes ?dbn))" "map_of iv1 k' = Some c" "int (length c) \<noteq> max_lag ?dbn"
      by blast
    have "generate ev ?dbn a = Inl (ValueError_expected_values (max_lag ?dbn) k' (length c))"
      using generate_seed_error[OF ax ord] r(1) unfolding seed_timeseries_given[OF iv ne] by simp
    then show "\<exists>k' c. generate ev ?dbn a = Inl (ValueError_expected_values (max_lag ?dbn) k' (length c)) \<and>
                  k' \<in> set (map fst (nodes ?dbn)) \<and> map_of iv1 k' = Some c \<and>
                  int (length c) \<noteq> max_lag ?dbn"
      using r(2,3,4) by blast
  }
  show "\<forall>kn \<in> set (nodes ?dbn). is_TemporalNode (snd kn) \<longrightarrow>
          (\<exists>vals. map_raise (node_time_feature_evaluate (snd kn)) (py_take (max_lag ?dbn) axis) = Inr vals \<and>
                  map_of iv1 (fst kn) = Some vals)"
  proof (intro ballI impI)
    fix kn assume kn: "kn \<in> set (nodes ?dbn)" "is_TemporalNode (snd kn)"
    have nm: "name (snd kn) = fst kn" using wf kn(1) unfolding dbn_wf_def by blast
    have eqn: "map name (map snd (nodes ?dbn)) = map fst (nodes ?dbn)"
      using wf unfolding dbn_wf_def by (auto intro: map_cong simp: comp_def)
    have "distinct (map fst (nodes ?dbn))" using wf unfolding dbn_wf_def by blast
    then have d: "distinct (map name (map snd (nodes ?dbn)))" by (simp only: eqn)
    have "snd kn \<in> set (map snd (nodes ?dbn))" using kn(1) by simp
    from backfill_temporal_entry[OF bf d this kn(2)] show
      "\<exists>vals. map_raise (node_time_feature_evaluate (snd kn)) (py_take (max_lag ?dbn) axis) = Inr vals \<and>
                  map_of iv1 (fst kn) = Some vals"
      unfolding nm .
  qed
qed

lemma set_order_ok_quiet_environment: "set_order_ok quiet_environment"
  by (simp add: set_order_ok_def quiet_environment_def)

text \<open>The call on the temporal example with an initial value for \<open>Z\<close> only.\<close>

definition temporal_example_seeded :: generate_args where
  "temporal_example_seeded = temporal_example_args\<lparr>initial_values := Some [(''Z'', [4])]\<rparr>"

theorem generate_initial_values_validation_witness:
  "set_order_ok quiet_environment \<and>
   generate quiet_environment spec_scenario (spec_scenario_args\<lparr>initial_values := Some [(''A'', [10])]\<rparr>) = Inl (ValueError_nodes_not_provided [''B'']) \<and>
   (\<exists>e. generate quiet_environment spec_scenario (spec_scenario_args\<lparr>initial_values := Some [(''A'', [10])]\<rparr>) = Inl e) \<and>
   (\<exists>L. generate quiet_environment spec_scenario (spec_scenario_args\<lparr>initial_values := Some [(''A'', [10])]\<rparr>) = Inl (ValueError_nodes_not_provided L) \<and>
        set L = {''B''}) \<and>
   generate quiet_environment spec_scenario (spec_scenario_args\<lparr>initial_values := Some [(''A'', [10]), (''B'', [5, 6])]\<rparr>)
     = Inl (ValueError_expected_values 1 ''B'' 2) \<and>
   (\<exists>k' (c :: cell list). generate quiet_environment spec_scenario (spec_scenario_args\<lparr>initial_values := Some [(''A'', [10]), (''B'', [5, 6])]\<rparr>)
              = Inl (ValueError_expected_values 1 k' (length c)) \<and> int (length c) \<noteq> 1) \<and>
   generate quiet_environment temporal_example temporal_example_seeded
     = Inr [(''T'', [Num 1, Num 2]), (''Z'', [Num 4, Num 9]), (''Time'', [Num 0, Num 1])] \<and>
   (\<exists>vals. map_raise (node_time_feature_evaluate (TemporalNode ''T'' (Some (PointOfPeriodicCycle 7)))) [TInt 0]
              = Inr vals \<and>
           map_of [(''Z'', [Num 4]), (''T'', [Num 1])] ''T'' = Some vals)"
proof -
  let ?A = "Node ''A'' [] (Some \<lparr>parent_weights = [], noise_std = 0, intrinsic_mean = 5\<rparr>)"
  let ?B = "Node ''B'' [(''A'', 1)] (Some \<lparr>parent_weights = [((''A'', 1), 8/10)], noise_std = 0, intrinsic_mean = 1\<rparr>)"
  let ?Tn = "TemporalNode ''T'' (Some (PointOfPeriodicCycle 7))"
  let ?Z = "Node ''Z'' [(''T'', 0), (''Z'', 1)]
              (Some \<lparr>parent_weights = [((''T'', 0), 2), ((''Z'', 1), 1)], noise_std = 0, intrinsic_mean = 1\<rparr>)"
  let ?aM = "spec_scenario_args\<lparr>initial_values := Some [(''A'', [10])]\<rparr>"
  let ?aW = "spec_scenario_args\<lparr>initial_values := Some [(''A'', [10]), (''B'', [5, 6])]\<rparr>"
  have sc: "build [?A, ?B] = spec_scenario" by (simp add: spec_scenario_def)
  have te: "build [?Tn, ?Z] = temporal_example" by (simp add: temporal_example_def)
  note so = set_order_ok_quiet_environment
  have gM: "generate quiet_environment spec_scenario ?aM = Inl (ValueError_nodes_not_provided [''B''])"
    by (simp add: sampler_eval spec_scenario_order spec_scenario_nodes spec_scenario_max_lag spec_scenario_args_def default_args_def quiet_environment_def upto_1_2)
  have gW: "generate quiet_environment spec_scenario ?aW = Inl (ValueError_expected_values 1 ''B'' 2)"
    by (simp add: sampler_eval spec_scenario_order spec_scenario_nodes spec_scenario_max_lag spec_scenario_args_def default_args_def quiet_environment_def upto_1_2)
  have gT: "generate quiet_environment temporal_example temporal_example_seeded
     = Inr [(''T'', [Num 1, Num 2]), (''Z'', [Num 4, Num 9]), (''Time'', [Num 0, Num 1])]"
    by (simp add: sampler_eval temporal_example_order temporal_example_nodes temporal_example_max_lag
        temporal_example_seeded_def temporal_example_args_def default_args_def quiet_environment_def upto_0_1 upto.simps numeral_2_eq_2
        insert_commute)
  have ivM: "initial_values ?aM = Some [(''A'', [10])]" "[(''A'', [10::real])] \<noteq> []" by simp_all
  have ivW: "initial_values ?aW = Some [(''A'', [10]), (''B'', [5, 6])]" "[(''A'', [10::real]), (''B'', [5, 6])] \<noteq> []"
    by simp_all
  have ivT: "initial_values temporal_example_seeded = Some [(''Z'', [4])]" "[(''Z'', [4::real])] \<noteq> []"
    by (simp_all add: temporal_example_seeded_def)
  have bM: "backfill_temporal (map snd (nodes (build [?A, ?B]))) (py_take (max_lag (build [?A, ?B])) [TInt 0, TInt 1, TInt 2])
        (map (\<lambda>kv. (fst kv, map Num (snd kv))) [(''A'', [10])]) = Inr [(''A'', [Num 10])]"
    unfolding sc by (simp add: spec_scenario_nodes is_TemporalNode_def)
  have bW: "backfill_temporal (map snd (nodes (build [?A, ?B]))) (py_take (max_lag (build [?A, ?B])) [TInt 0, TInt 1, TInt 2])
        (map (\<lambda>kv. (fst kv, map Num (snd kv))) [(''A'', [10]), (''B'', [5, 6])])
        = Inr [(''A'', [Num 10]), (''B'', [Num 5, Num 6])]"
    unfolding sc by (simp add: spec_scenario_nodes is_TemporalNode_def)
  have bT: "backfill_temporal (map snd (nodes (build [?Tn, ?Z]))) (py_take (max_lag (build [?Tn, ?Z])) [TInt 0, TInt 1])
        (map (\<lambda>kv. (fst kv, map Num (snd kv))) [(''Z'', [4])]) = Inr [(''Z'', [Num 4]), (''T'', [Num 1])]"
    unfolding te
    by (simp add: temporal_example_nodes temporal_example_max_lag is_TemporalNode_def py_take_def
          node_time_feature_evaluate_def)
  have axT: "time_axis quiet_environment temporal_example_seeded = Inr [TInt 0, TInt 1]"
    by (simp add: time_axis_def temporal_example_seeded_def temporal_example_args_def default_args_def upto_0_1)
  have oS: "get_topological_order (build [?A, ?B]) = Inr (map snd (nodes spec_scenario))"
    unfolding sc by (rule spec_scenario_order)
  have oT: "get_topological_order (build [?Tn, ?Z]) = Inr (map snd (nodes temporal_example))"
    unfolding te by (rule temporal_example_order)
  note M = generate_initial_values_validation[OF so ivM, where ns="[?A, ?B]" and k="''B''" and n="?B"
      and axis="[TInt 0, TInt 1, TInt 2]" and order="map snd (nodes spec_scenario)" and ?iv1.0="[(''A'', [Num 10])]"]
  note W = generate_initial_values_validation[OF so ivW, where ns="[?A, ?B]" and k="''B''" and n="?B"
      and axis="[TInt 0, TInt 1, TInt 2]" and order="map snd (nodes spec_scenario)"
      and ?iv1.0="[(''A'', [Num 10]), (''B'', [Num 5, Num 6])]"]
  note T = generate_initial_values_validation[OF so ivT, where ns="[?Tn, ?Z]"
      and axis="[TInt 0, TInt 1]" and order="map snd (nodes temporal_example)"
      and ?iv1.0="[(''Z'', [Num 4]), (''T'', [Num 1])]"]
  have c1: "\<exists>e. generate quiet_environment spec_scenario ?aM = Inl e"
    using M unfolding sc by (simp add: spec_scenario_nodes is_TemporalNode_def)
  have "\<exists>L. generate quiet_environment spec_scenario ?aM = Inl (ValueError_nodes_not_provided L) \<and>
        set L = fst ` {kn \<in> set (nodes spec_scenario). \<not> is_TemporalNode (snd kn) \<and> map_of [(''A'', [10::real])] (fst kn) = None}"
    using M bM oS spec_scenario_axis[of "Some [(''A'', [10])]"] unfolding sc
    by (simp add: spec_scenario_nodes is_TemporalNode_def)
  then have c2: "\<exists>L. generate quiet_environment spec_scenario ?aM = Inl (ValueError_nodes_not_provided L) \<and> set L = {''B''}"
    using gM by (auto simp: spec_scenario_nodes is_TemporalNode_def)
  have c3: "\<exists>k' (c :: cell list). generate quiet_environment spec_scenario ?aW = Inl (ValueError_expected_values 1 k' (length c)) \<and> int (length c) \<noteq> 1"
  proof -
    have "\<exists>k' c. generate quiet_environment spec_scenario ?aW = Inl (ValueError_expected_values (max_lag spec_scenario) k' (length c)) \<and>
                  k' \<in> set (map fst (nodes spec_scenario)) \<and> map_of [(''A'', [Num 10]), (''B'', [Num 5, Num 6])] k' = Some c \<and>
                  int (length c) \<noteq> max_lag spec_scenario"
      using W bW oS spec_scenario_axis[of "Some [(''A'', [10]), (''B'', [5, 6])]"] unfolding sc
      by (simp add: spec_scenario_nodes spec_scenario_max_lag is_TemporalNode_def)
    then show ?thesis unfolding spec_scenario_max_lag by blast
  qed
  have c4: "\<exists>vals. map_raise (node_time_feature_evaluate ?Tn) [TInt 0] = Inr vals \<and>
           map_of [(''Z'', [Num 4]), (''T'', [Num 1])] ''T'' = Some vals"
  proof -
    have H: "time_axis quiet_environment temporal_example_seeded = Inr [TInt 0, TInt 1] \<and>
        get_topological_order (build [?Tn, ?Z]) = Inr (map snd (nodes temporal_example)) \<and>
        backfill_temporal (map snd (nodes (build [?Tn, ?Z]))) (py_take (max_lag (build [?Tn, ?Z])) [TInt 0, TInt 1])
          (map (\<lambda>kv. (fst kv, map Num (snd kv))) [(''Z'', [4])]) = Inr [(''Z'', [Num 4]), (''T'', [Num 1])]"
      using axT oT bT by blast
    from T[THEN conjunct2, THEN mp, OF H] have
      all: "\<forall>kn \<in> set (nodes (build [?Tn, ?Z])). is_TemporalNode (snd kn) \<longrightarrow>
          (\<exists>vals. map_raise (node_time_feature_evaluate (snd kn)) (py_take (max_lag (build [?Tn, ?Z])) [TInt 0, TInt 1])
                     = Inr vals \<and>
                  map_of [(''Z'', [Num 4]), (''T'', [Num 1])] (fst kn) = Some vals)"
      by blast
    have mem: "(''T'', ?Tn) \<in> set (nodes (build [?Tn, ?Z]))"
      unfolding te by (simp add: temporal_example_nodes)
    have tmp: "is_TemporalNode (snd (''T'', ?Tn))" by (simp add: is_TemporalNode_def)
    have pt: "py_take (max_lag (build [?Tn, ?Z])) [TInt 0, TInt 1] = [TInt 0]"
      unfolding te by (simp add: temporal_example_max_lag py_take_def)
    from all[rule_format, OF mem tmp] show ?thesis unfolding pt by simp
  qed
  show ?thesis using so gM gW gT c1 c2 c3 c4 by blast
qed

end
